theory Spec2Isabelle
  imports Main
begin

section \<open>Strings, errors and list indexing\<close>

text \<open>
  The script \<^verbatim>\<open>update_tags_ja.py\<close> works on Python \<^verbatim>\<open>str\<close> values, which are
  sequences of Unicode code points. A code point is a natural number here, so that
  lengths count what Python counts. ASCII literals of the source are written with
  \<open>ascii\<close>; the Japanese literals are written as their code points, in order.
\<close>

type_synonym str = "nat list"

definition ascii :: "string \<Rightarrow> str" where
  "ascii s = map of_char s"

datatype csv_msg = Field_larger_than_field_limit | Newline_seen_in_unquoted_field

text \<open>
  The exceptions the script can raise. \<open>OSError p\<close> is raised by \<^verbatim>\<open>open(p, ...)\<close>,
  \<open>OSError_replace\<close> by \<^verbatim>\<open>os.replace\<close>, \<open>csv_Error\<close> is \<^verbatim>\<open>csv.Error\<close>.
\<close>

datatype py_error =
    OSError string
  | OSError_replace string string
  | UnicodeDecodeError
  | StopIteration
  | IndexError
  | csv_Error csv_msg

definition getitem :: "'a list \<Rightarrow> nat \<Rightarrow> py_error + 'a" where
  \<comment> \<open>\<^verbatim>\<open>xs[i]\<close> for a non-negative index: raises IndexError out of range.\<close>
  "getitem xs i = (if i < length xs then Inr (xs ! i) else Inl IndexError)"

definition setitem :: "'a list \<Rightarrow> nat \<Rightarrow> 'a \<Rightarrow> py_error + 'a list" where
  \<comment> \<open>\<^verbatim>\<open>xs[i] = v\<close> for a non-negative index: raises IndexError out of range.\<close>
  "setitem xs i v = (if i < length xs then Inr (xs[i := v]) else Inl IndexError)"

section \<open>The translation table\<close>

text \<open>
  The dict literal of the source, where its variable is named translations, as the list
  of its items in source order. Its twelve keys are ASCII; each value is the list of the
  code points of the Japanese description.
\<close>

definition translations_dict :: "(str \<times> str) list" where
  "translations_dict =
  [(ascii ''^value(expression)^'',
     [0x6307, 0x5B9A, 0x3057, 0x305F, 0x5F0F, 0x3092, 0x8A55, 0x4FA1, 0x3057, 0x3066, 0x3001,
      0x305D, 0x306E, 0x7D50, 0x679C, 0x3092, 0x6587, 0x5B57, 0x5217, 0x3068, 0x3057, 0x3066,
      0x66F8, 0x304D, 0x51FA, 0x3057, 0x307E, 0x3059, 0x3002, 0x5C5E, 0x6027, 0x306E, 0x5024,
      0x3084, 0x3001, 0x8A08, 0x7B97, 0x7D50, 0x679C, 0x3001, 0x9023, 0x7D50, 0x3055, 0x308C,
      0x305F, 0x6587, 0x5B57, 0x5217, 0x306A, 0x3069, 0x3092, 0x51FA, 0x529B, 0x3059, 0x308B,
      0x969B, 0x306B, 0x4F7F, 0x7528, 0x3057, 0x307E, 0x3059, 0x3002]),
   (ascii ''^action( action )^'',
     [0x30A2, 0x30AF, 0x30B7, 0x30E7, 0x30F3, 0x30B3, 0x30FC, 0x30C9, 0x3092, 0x5B9F, 0x884C,
      0x3057, 0x307E, 0x3059, 0x3002, 0x3053, 0x306E, 0x30BF, 0x30B0, 0x81EA, 0x4F53, 0x306F,
      0x4F55, 0x3082, 0x66F8, 0x304D, 0x51FA, 0x3057, 0x307E, 0x305B, 0x3093, 0x304C, 0x3001,
      0x66F8, 0x304D, 0x51FA, 0x3057, 0x4E2D, 0x306B, 0x30CE, 0x30FC, 0x30C8, 0x306E, 0x5C5E,
      0x6027, 0xFF08, 0x0024, 0x0043, 0x006F, 0x006C, 0x006F, 0x0072, 0x306A, 0x3069, 0xFF09,
      0x3092, 0x6C38, 0x7D9A, 0x7684, 0x306B, 0x5909, 0x66F4, 0x3057, 0x305F, 0x308A, 0x3001,
      0x5909, 0x6570, 0x3092, 0x64CD, 0x4F5C, 0x3057, 0x305F, 0x308A, 0x3059, 0x308B, 0x306E,
      0x306B, 0x4F7F, 0x7528, 0x3057, 0x307E, 0x3059, 0x3002]),
   (ascii ''^if( condition )^'',
     [0x6307, 0x5B9A, 0x3055, 0x308C, 0x305F, 0x6761, 0x4EF6, 0xFF08, 0x30A2, 0x30AF, 0x30B7,
      0x30E7, 0x30F3, 0x30B3, 0x30FC, 0x30C9, 0x5F0F, 0x306E, 0x30AF, 0x30A8, 0x30EA, 0xFF09,
      0x3092, 0x8A55, 0x4FA1, 0x3057, 0x307E, 0x3059, 0x3002, 0x771F, 0xFF08, 0x0074, 0x0072,
      0x0075, 0x0065, 0xFF09, 0x306E, 0x5834, 0x5408, 0x3001, 0x305D, 0x306E, 0x5F8C, 0x306E,
      0x30B3, 0x30FC, 0x30C9, 0xFF08, 0x307E, 0x305F, 0x306F, 0x005E, 0x0065, 0x006C, 0x0073,
      0x0065, 0x005E, 0x307E, 0x3067, 0xFF09, 0x304C, 0x66F8, 0x304D, 0x51FA, 0x3055, 0x308C,
      0x307E, 0x3059, 0x3002]),
   (ascii ''^else^'',
     [0x005E, 0x0069, 0x0066, 0x005E, 0x30BF, 0x30B0, 0x306E, 0x6761, 0x4EF6, 0x304C, 0x507D,
      0xFF08, 0x0066, 0x0061, 0x006C, 0x0073, 0x0065, 0xFF09, 0x3060, 0x3063, 0x305F, 0x5834,
      0x5408, 0x306B, 0x66F8, 0x304D, 0x51FA, 0x3059, 0x30D6, 0x30ED, 0x30C3, 0x30AF, 0x3092,
      0x958B, 0x59CB, 0x3057, 0x307E, 0x3059, 0x3002]),
   (ascii ''^endIf^'',
     [0x005E, 0x0069, 0x0066, 0x005E, 0x30D6, 0x30ED, 0x30C3, 0x30AF, 0x306E, 0x7D42, 0x4E86,
      0x3092, 0x793A, 0x3057, 0x307E, 0x3059, 0x3002]),
   (ascii ''^include( ^value(item|group)^[, ^value(template)^] )^'',
     [0x6307, 0x5B9A, 0x3057, 0x305F, 0x30CE, 0x30FC, 0x30C8, 0xFF08, 0x307E, 0x305F, 0x306F,
      0x30CE, 0x30FC, 0x30C8, 0x306E, 0x30B0, 0x30EB, 0x30FC, 0x30D7, 0xFF09, 0x3092, 0x3001,
      0x6307, 0x5B9A, 0x3057, 0x305F, 0x30C6, 0x30F3, 0x30D7, 0x30EC, 0x30FC, 0x30C8, 0xFF08,
      0x7701, 0x7565, 0x6642, 0x306F, 0x305D, 0x306E, 0x30CE, 0x30FC, 0x30C8, 0x306E, 0x30C7,
      0x30D5, 0x30A9, 0x30EB, 0x30C8, 0x30C6, 0x30F3, 0x30D7, 0x30EC, 0x30FC, 0x30C8, 0xFF09,
      0x3092, 0x4F7F, 0x7528, 0x3057, 0x3066, 0x53D6, 0x308A, 0x8FBC, 0x307F, 0x307E, 0x3059,
      0x3002]),
   (ascii ''^title( [item] )^'',
     [0x30CE, 0x30FC, 0x30C8, 0x306E, 0x30BF, 0x30A4, 0x30C8, 0x30EB, 0xFF08, 0x0024, 0x004E,
      0x0061, 0x006D, 0x0065, 0xFF09, 0x3092, 0x66F8, 0x304D, 0x51FA, 0x3057, 0x307E, 0x3059,
      0x3002, 0x0048, 0x0054, 0x004D, 0x004C, 0x30A8, 0x30F3, 0x30C6, 0x30A3, 0x30C6, 0x30A3,
      0x304C, 0x9069, 0x5207, 0x306B, 0x51E6, 0x7406, 0x3055, 0x308C, 0x307E, 0x3059, 0x3002]),
   (ascii ''^text( [item, N, plain] )^'',
     [0x30CE, 0x30FC, 0x30C8, 0x306E, 0x672C, 0x6587, 0xFF08, 0x0024, 0x0054, 0x0065, 0x0078,
      0x0074, 0xFF09, 0x3092, 0x66F8, 0x304D, 0x51FA, 0x3057, 0x307E, 0x3059, 0x3002, 0x7279,
      0x5B9A, 0x306E, 0x6BB5, 0x843D, 0x6570, 0x0028, 0x004E, 0x0029, 0x306E, 0x307F, 0x3084,
      0x3001, 0x30D7, 0x30EC, 0x30FC, 0x30F3, 0x30C6, 0x30AD, 0x30B9, 0x30C8, 0x3068, 0x3057,
      0x3066, 0x306E, 0x51FA, 0x529B, 0x3082, 0x53EF, 0x80FD, 0x3067, 0x3059, 0x3002]),
   (ascii ''^children( [template][,N] )^'',
     [0x73FE, 0x5728, 0x306E, 0x30CE, 0x30FC, 0x30C8, 0x306E, 0x76F4, 0x4E0B, 0x306E, 0x5B50,
      0x30CE, 0x30FC, 0x30C8, 0x3092, 0x3001, 0x6307, 0x5B9A, 0x3057, 0x305F, 0x30C6, 0x30F3,
      0x30D7, 0x30EC, 0x30FC, 0x30C8, 0x3067, 0x66F8, 0x304D, 0x51FA, 0x3057, 0x307E, 0x3059,
      0x3002]),
   (ascii ''^descendants( [template][,N] )^'',
     [0x73FE, 0x5728, 0x306E, 0x30CE, 0x30FC, 0x30C8, 0x306E, 0x3059, 0x3079, 0x3066, 0x306E,
      0x5B50, 0x5B6B, 0x30CE, 0x30FC, 0x30C8, 0x3092, 0x3001, 0x6307, 0x5B9A, 0x3057, 0x305F,
      0x30C6, 0x30F3, 0x30D7, 0x30EC, 0x30FC, 0x30C8, 0x3067, 0x66F8, 0x304D, 0x51FA, 0x3057,
      0x307E, 0x3059, 0x3002]),
   (ascii ''^root^'',
     [0x30B5, 0x30A4, 0x30C8, 0x306E, 0x30EB, 0x30FC, 0x30C8, 0x30C7, 0x30A3, 0x30EC, 0x30AF,
      0x30C8, 0x30EA, 0x3078, 0x306E, 0x76F8, 0x5BFE, 0x30D1, 0x30B9, 0x3092, 0x66F8, 0x304D,
      0x51FA, 0x3057, 0x307E, 0x3059, 0x3002, 0x753B, 0x50CF, 0x3084, 0x0043, 0x0053, 0x0053,
      0x3078, 0x306E, 0x30D1, 0x30B9, 0x6307, 0x5B9A, 0x306B, 0x4FBF, 0x5229, 0x3067, 0x3059,
      0x3002]),
   (ascii ''^url( item )^'',
     [0x30A8, 0x30AF, 0x30B9, 0x30DD, 0x30FC, 0x30C8, 0x3055, 0x308C, 0x308B, 0x0048, 0x0054,
      0x004D, 0x004C, 0x30DA, 0x30FC, 0x30B8, 0x3078, 0x306E, 0x76F8, 0x5BFE, 0x0055, 0x0052,
      0x004C, 0x3092, 0x66F8, 0x304D, 0x51FA, 0x3057, 0x307E, 0x3059, 0x3002])]"

definition dict_get :: "('k \<times> 'v) list \<Rightarrow> 'k \<Rightarrow> 'v \<Rightarrow> 'v" where
  \<comment> \<open>\<^verbatim>\<open>d.get(k, default)\<close>\<close>
  "dict_get d k dflt = (case map_of d k of None \<Rightarrow> dflt | Some v \<Rightarrow> v)"

definition dict_keys :: "('k \<times> 'v) list \<Rightarrow> 'k set" where
  "dict_keys d = fst ` set d"

section \<open>The transform on rows\<close>

text \<open>
  A row is the list of fields that \<^verbatim>\<open>csv.reader\<close> yields. The header is handled by
  lines 26 to 28 of the script, every other row by the body of the \<^verbatim>\<open>for\<close> loop
  (lines 32 to 39); \<^verbatim>\<open>writer.writerow\<close> then receives the updated list.
\<close>

type_synonym row = "str list"

definition update_header :: "row \<Rightarrow> row" where
  "update_header header =
     (if length header < 3 then header @ [ascii ''DescriptionJa''] else header)"

definition update_row :: "row \<Rightarrow> py_error + row" where
  "update_row row =
     (case getitem row 0 of
        Inl e \<Rightarrow> Inl e
      | Inr name \<Rightarrow>
          (case getitem row 1 of
             Inl e \<Rightarrow> Inl e
           | Inr desc_en \<Rightarrow>
               (let desc_ja = dict_get translations_dict name [] in
                if length row < 3 then Inr (row @ [desc_ja])
                else setitem row 2 desc_ja)))"

text \<open>
  The \<^verbatim>\<open>for\<close> loop over the data rows. The result is the list of rows handed to
  \<^verbatim>\<open>writer.writerow\<close>, in order, and the exception that ended the loop, if any:
  the rows before a failing row have been written when it fails.
\<close>

fun rows_loop :: "row list \<Rightarrow> row list \<times> py_error option" where
  "rows_loop [] = ([], None)"
| "rows_loop (r # rs) =
     (case update_row r of
        Inl e \<Rightarrow> ([], Some e)
      | Inr r' \<Rightarrow> (case rows_loop rs of (out, e) \<Rightarrow> (r' # out, e)))"

text \<open>
  Lines 26 to 40 against an iterator that yields the rows \<open>rows\<close> and then either stops
  (\<open>pending = None\<close>) or raises \<open>pending = Some e\<close>. \<^verbatim>\<open>next(reader)\<close> on an iterator with
  no row raises StopIteration, or the iterator's own exception. An exception of the loop
  body comes before the iterator's, which is only met once every row it yielded has
  been processed.
\<close>

definition process_document :: "row list \<Rightarrow> py_error option \<Rightarrow> row list \<times> py_error option" where
  "process_document rows pending =
     (case rows of
        [] \<Rightarrow> ([], Some (case pending of None \<Rightarrow> StopIteration | Some e \<Rightarrow> e))
      | header # data \<Rightarrow>
          (case rows_loop data of
             (out, e) \<Rightarrow>
               (update_header header # out,
                case e of Some x \<Rightarrow> Some x | None \<Rightarrow> pending)))"

section \<open>The csv module\<close>

text \<open>
  The script calls \<^verbatim>\<open>csv.reader(f_in)\<close> and \<^verbatim>\<open>csv.writer(f_out)\<close> with no dialect
  argument, so both work in the default dialect \<^verbatim>\<open>excel\<close>: delimiter comma,
  quotechar double quote, doublequote on, no escapechar, skipinitialspace off,
  lineterminator CR LF, quoting QUOTE_MINIMAL, strict off. The definitions of this section
  follow CPython's \<^verbatim>\<open>Modules/_csv.c\<close> for that dialect; the parser states that only an
  escapechar reaches are left out.
\<close>

abbreviation (input) LF :: nat where "LF \<equiv> 10"
abbreviation (input) CR :: nat where "CR \<equiv> 13"
abbreviation (input) delimiter :: nat where "delimiter \<equiv> 44"
abbreviation (input) quotechar :: nat where "quotechar \<equiv> 34"

definition field_limit :: nat where
  \<comment> \<open>\<^verbatim>\<open>csv.field_size_limit()\<close>, which the script never changes\<close>
  "field_limit = 131072"

subsection \<open>Reader\<close>

datatype ParserState =
  START_RECORD | START_FIELD | IN_FIELD | IN_QUOTED_FIELD | QUOTE_IN_QUOTED_FIELD | EAT_CRNL

record ReaderObj =
  state :: ParserState
  rfields :: "str list"
  field :: str

definition parse_reset :: ReaderObj where
  "parse_reset = \<lparr>state = START_RECORD, rfields = [], field = []\<rparr>"

definition parse_save_field :: "ReaderObj \<Rightarrow> ReaderObj" where
  "parse_save_field r = r\<lparr>rfields := rfields r @ [field r], field := []\<rparr>"

definition parse_add_char :: "ReaderObj \<Rightarrow> nat \<Rightarrow> py_error + ReaderObj" where
  "parse_add_char r c =
     (if field_limit \<le> length (field r) then Inl (csv_Error Field_larger_than_field_limit)
      else Inr (r\<lparr>field := field r @ [c]\<rparr>))"

text \<open>
  One step of the parser. The character \<open>None\<close> is the end-of-line marker that the reader
  feeds after the last character of each line (EOL in the C source).
\<close>

definition start_field :: "ReaderObj \<Rightarrow> nat option \<Rightarrow> py_error + ReaderObj" where
  \<comment> \<open>the case START_FIELD, which START_RECORD falls through to\<close>
  "start_field r c =
     (case c of
        None \<Rightarrow> Inr ((parse_save_field r)\<lparr>state := START_RECORD\<rparr>)
      | Some ch \<Rightarrow>
          if ch = LF \<or> ch = CR then Inr ((parse_save_field r)\<lparr>state := EAT_CRNL\<rparr>)
          else if ch = quotechar then Inr (r\<lparr>state := IN_QUOTED_FIELD\<rparr>)
          else if ch = delimiter then Inr (parse_save_field r)
          else (case parse_add_char r ch of
                  Inl e \<Rightarrow> Inl e
                | Inr r' \<Rightarrow> Inr (r'\<lparr>state := IN_FIELD\<rparr>)))"

definition parse_process_char :: "ReaderObj \<Rightarrow> nat option \<Rightarrow> py_error + ReaderObj" where
  "parse_process_char r c =
     (case state r of
        START_RECORD \<Rightarrow>
          (case c of
             None \<Rightarrow> Inr r
           | Some ch \<Rightarrow>
               if ch = LF \<or> ch = CR then Inr (r\<lparr>state := EAT_CRNL\<rparr>)
               else start_field (r\<lparr>state := START_FIELD\<rparr>) c)
      | START_FIELD \<Rightarrow> start_field r c
      | IN_FIELD \<Rightarrow>
          (case c of
             None \<Rightarrow> Inr ((parse_save_field r)\<lparr>state := START_RECORD\<rparr>)
           | Some ch \<Rightarrow>
               if ch = LF \<or> ch = CR then Inr ((parse_save_field r)\<lparr>state := EAT_CRNL\<rparr>)
               else if ch = delimiter then Inr ((parse_save_field r)\<lparr>state := START_FIELD\<rparr>)
               else parse_add_char r ch)
      | IN_QUOTED_FIELD \<Rightarrow>
          (case c of
             None \<Rightarrow> Inr r
           | Some ch \<Rightarrow>
               if ch = quotechar then Inr (r\<lparr>state := QUOTE_IN_QUOTED_FIELD\<rparr>)
               else parse_add_char r ch)
      | QUOTE_IN_QUOTED_FIELD \<Rightarrow>
          (case c of
             None \<Rightarrow> Inr ((parse_save_field r)\<lparr>state := START_RECORD\<rparr>)
           | Some ch \<Rightarrow>
               if ch = quotechar then
                 (case parse_add_char r ch of
                    Inl e \<Rightarrow> Inl e
                  | Inr r' \<Rightarrow> Inr (r'\<lparr>state := IN_QUOTED_FIELD\<rparr>))
               else if ch = delimiter then Inr ((parse_save_field r)\<lparr>state := START_FIELD\<rparr>)
               else if ch = LF \<or> ch = CR then Inr ((parse_save_field r)\<lparr>state := EAT_CRNL\<rparr>)
               else (case parse_add_char r ch of
                       Inl e \<Rightarrow> Inl e
                     | Inr r' \<Rightarrow> Inr (r'\<lparr>state := IN_FIELD\<rparr>)))
      | EAT_CRNL \<Rightarrow>
          (case c of
             None \<Rightarrow> Inr (r\<lparr>state := START_RECORD\<rparr>)
           | Some ch \<Rightarrow>
               if ch = LF \<or> ch = CR then Inr r
               else Inl (csv_Error Newline_seen_in_unquoted_field)))"

text \<open>
  The inner loop of \<^verbatim>\<open>Reader_iternext\<close>: every character of the line, then the
  end-of-line marker.
\<close>

fun parse_line :: "ReaderObj \<Rightarrow> str \<Rightarrow> py_error + ReaderObj" where
  "parse_line r [] = parse_process_char r None"
| "parse_line r (c # cs) =
     (case parse_process_char r (Some c) of
        Inl e \<Rightarrow> Inl e
      | Inr r' \<Rightarrow> parse_line r' cs)"

text \<open>
  The iterator \<^verbatim>\<open>csv.reader(f)\<close>, run to its end: the rows it yields, in order, and
  the exception that ends it, if it does not end by StopIteration. The lines come from
  the iterator \<open>f\<close>, which yields the lines \<open>ls\<close> and then either stops (\<open>src = None\<close>)
  or raises (\<open>src = Some e\<close>). \<^verbatim>\<open>Reader_iternext\<close> resets the parser, then takes
  lines until the parser is back in START_RECORD and yields the fields. When the lines
  run out inside a record (a quoted field left open), it saves the field and yields what
  it has, since the dialect is not strict; when they run out between records, the
  iterator stops. When taking a line raises, the exception goes through and the record
  under way is not yielded.
\<close>

fun reader_from :: "py_error option \<Rightarrow> ReaderObj \<Rightarrow> str list \<Rightarrow> row list \<times> py_error option" where
  "reader_from src r [] =
     (case src of
        Some e \<Rightarrow> ([], Some e)
      | None \<Rightarrow>
          if field r \<noteq> [] \<or> state r = IN_QUOTED_FIELD
          then ([rfields (parse_save_field r)], None)
          else ([], None))"
| "reader_from src r (l # ls) =
     (case parse_line r l of
        Inl e \<Rightarrow> ([], Some e)
      | Inr r' \<Rightarrow>
          if state r' = START_RECORD
          then (case reader_from src parse_reset ls of (rows, e) \<Rightarrow> (rfields r' # rows, e))
          else reader_from src r' ls)"

definition csv_reader :: "str list \<Rightarrow> py_error option \<Rightarrow> row list \<times> py_error option" where
  "csv_reader ls src = reader_from src parse_reset ls"

subsection \<open>Writer\<close>

text \<open>
  \<^verbatim>\<open>join_append_data\<close> copies a field, doubling every quotechar, and asks for quotes
  when it meets the delimiter, the quotechar or a character of the lineterminator.
  \<^verbatim>\<open>csv_writerow\<close> joins the fields with the delimiter; a record of one empty
  field would be an empty line, so that field is written quoted. The lineterminator
  ends the record.
\<close>

definition needs_quotes :: "str \<Rightarrow> bool" where
  "needs_quotes f = (\<exists>c \<in> set f. c = delimiter \<or> c = quotechar \<or> c = CR \<or> c = LF)"

fun join_append_data :: "str \<Rightarrow> str" where
  "join_append_data [] = []"
| "join_append_data (c # cs) =
     (if c = quotechar then quotechar # quotechar # join_append_data cs
      else c # join_append_data cs)"

definition join_append :: "str \<Rightarrow> bool \<Rightarrow> str" where
  "join_append f quoted =
     (if quoted \<or> needs_quotes f then quotechar # join_append_data f @ [quotechar] else f)"

fun join_fields :: "row \<Rightarrow> str" where
  "join_fields [] = []"
| "join_fields [f] = join_append f False"
| "join_fields (f # g # fs) = join_append f False @ delimiter # join_fields (g # fs)"

definition writerow :: "row \<Rightarrow> str" where
  "writerow r =
     (let rec = join_fields r in
      (if r \<noteq> [] \<and> rec = [] then join_append [] True else rec) @ [CR, LF])"

section \<open>Text files\<close>

text \<open>
  The input is opened in text mode with the default \<^verbatim>\<open>newline=None\<close>: on reading,
  CR LF and a lone CR become LF, and iterating the file yields the lines, each with its
  LF, the last one maybe without.
\<close>

fun universal_newlines :: "str \<Rightarrow> str" where
  "universal_newlines [] = []"
| "universal_newlines [c] = (if c = CR then [LF] else [c])"
| "universal_newlines (c # d # cs) =
     (if c = CR \<and> d = LF then LF # universal_newlines cs
      else if c = CR then LF # universal_newlines (d # cs)
      else c # universal_newlines (d # cs))"

fun split_lines :: "str \<Rightarrow> str list" where
  "split_lines [] = []"
| "split_lines (c # cs) =
     (if c = LF then [LF] # split_lines cs
      else (case split_lines cs of
              [] \<Rightarrow> [[c]]
            | l # ls \<Rightarrow> (c # l) # ls))"

definition file_lines :: "str \<Rightarrow> str list" where
  "file_lines t = split_lines (universal_newlines t)"

text \<open>
  The file is decoded as it is read, a chunk at a time, so bytes that are not UTF-8 are
  met only when the lines before them have been yielded: iterating such a file yields
  the complete lines of the text decoded so far, and raises UnicodeDecodeError where the
  next line should come. A line that has no LF yet is never yielded.
\<close>

definition complete_text :: "str \<Rightarrow> str" where
  \<comment> \<open>the text up to its last LF\<close>
  "complete_text u = rev (dropWhile (\<lambda>c. c \<noteq> LF) (rev u))"

definition complete_lines :: "str \<Rightarrow> str list" where
  "complete_lines t = split_lines (complete_text (universal_newlines t))"

section \<open>The file system and the script\<close>

text \<open>
  What the script sees of the world: the files by path, whether a path can be opened for
  reading or for writing, whether \<^verbatim>\<open>os.replace\<close> is going to succeed, and the standard
  output. A file holds UTF-8 bytes. A file whose bytes all decode is kept as the text
  \<open>Text t\<close> that \<^verbatim>\<open>encoding='utf-8'\<close> reads from it and writes to it; encoding a text
  is a function of the text, so equal texts are equal bytes. A file with bytes that are
  not valid UTF-8 is \<open>Undecodable t\<close>, where \<open>t\<close> is the text that reading has decoded
  and passed on when it meets them (how far that is depends on the chunks it reads; it is
  empty when they lie in the first chunk). A write reaches
  the file when it is made; the buffering of the script only delays it, and only for the
  temporary file.
\<close>

datatype contents = Text str | Undecodable str

text \<open>Iterating the open file: the lines it yields, and the exception it ends with.\<close>

definition text_lines :: "contents \<Rightarrow> str list" where
  "text_lines c = (case c of Text t \<Rightarrow> file_lines t | Undecodable t \<Rightarrow> complete_lines t)"

definition text_error :: "contents \<Rightarrow> py_error option" where
  "text_error c = (case c of Text t \<Rightarrow> None | Undecodable t \<Rightarrow> Some UnicodeDecodeError)"

record world =
  files :: "string \<Rightarrow> contents option"
  may_read :: "string \<Rightarrow> bool"
  may_write :: "string \<Rightarrow> bool"
  may_replace :: bool
  stdout :: "string list"

definition input_file :: string where
  "input_file = ''/Users/tk4o2ka/github/tinderboxlspserver/resource/export_tags.csv''"

definition output_file :: string where
  "output_file = ''/Users/tk4o2ka/github/tinderboxlspserver/resource/export_tags_ja.csv''"

definition open_r :: "string \<Rightarrow> world \<Rightarrow> py_error + contents" where
  \<comment> \<open>\<^verbatim>\<open>open(p, 'r', encoding='utf-8')\<close>\<close>
  "open_r p w =
     (case files w p of
        None \<Rightarrow> Inl (OSError p)
      | Some c \<Rightarrow> if may_read w p then Inr c else Inl (OSError p))"

definition open_w :: "string \<Rightarrow> world \<Rightarrow> py_error + world" where
  \<comment> \<open>\<^verbatim>\<open>open(p, 'w', encoding='utf-8', newline='')\<close>: creates or truncates the file\<close>
  "open_w p w =
     (if may_write w p then Inr (w\<lparr>files := (files w)(p \<mapsto> Text [])\<rparr>)
      else Inl (OSError p))"

definition file_write :: "string \<Rightarrow> str \<Rightarrow> world \<Rightarrow> world" where
  \<comment> \<open>writing to the file opened with \<open>open_w\<close>; with \<^verbatim>\<open>newline=''\<close> nothing is translated\<close>
  "file_write p s w =
     w\<lparr>files := (files w)(p \<mapsto> (case files w p of Some (Text t) \<Rightarrow> Text (t @ s) | _ \<Rightarrow> Text s))\<rparr>"

definition os_replace :: "string \<Rightarrow> string \<Rightarrow> world \<Rightarrow> py_error + world" where
  \<comment> \<open>\<^verbatim>\<open>os.replace(src, dst)\<close>: one step, or an OSError that changes nothing\<close>
  "os_replace src dst w =
     (case files w src of
        None \<Rightarrow> Inl (OSError_replace src dst)
      | Some c \<Rightarrow>
          if may_replace w then Inr (w\<lparr>files := (files w)(dst \<mapsto> c, src := None)\<rparr>)
          else Inl (OSError_replace src dst))"

definition print :: "string \<Rightarrow> world \<Rightarrow> world" where
  "print s w = w\<lparr>stdout := stdout w @ [s]\<rparr>"

text \<open>The calls of \<^verbatim>\<open>writer.writerow\<close>: the world after each of them, in order.\<close>

fun writerows :: "world \<Rightarrow> row list \<Rightarrow> world list" where
  "writerows w [] = []"
| "writerows w (r # rs) =
     (let w' = file_write output_file (writerow r) w in w' # writerows w' rs)"

text \<open>
  The script. The result is the exception it ends with, if any, and the worlds it passes
  through, one after each effect, in order: the world it ends in is the last of them (or
  the world it started in when there is none). The input is open before the output is
  created; the rows are read, updated and written one at a time, so an exception of
  reading comes after the rows before it have been written; the output replaces the
  input after both files are closed, and the message is printed last.
\<close>

definition main :: "world \<Rightarrow> py_error option \<times> world list" where
  "main w =
     (case open_r input_file w of
        Inl e \<Rightarrow> (Some e, [])
      | Inr c \<Rightarrow>
          (case open_w output_file w of
             Inl e \<Rightarrow> (Some e, [])
           | Inr w1 \<Rightarrow>
               (case csv_reader (text_lines c) (text_error c) of
                  (rows, pending) \<Rightarrow>
                    (case process_document rows pending of
                       (out, e) \<Rightarrow>
                         (let ws = w1 # writerows w1 out in
                          case e of
                            Some x \<Rightarrow> (Some x, ws)
                          | None \<Rightarrow>
                              (case os_replace output_file input_file (last ws) of
                                 Inl x \<Rightarrow> (Some x, ws)
                               | Inr w3 \<Rightarrow>
                                   (None,
                                    ws @ [w3,
                                      print ''Updated export_tags.csv with Japanese descriptions.'' w3])))))))"

definition final_world :: "world \<Rightarrow> world" where
  "final_world w = last (w # snd (main w))"

text \<open>
  A world for examples: the input file holds the text \<open>t\<close>, nothing else exists, and
  every operation is permitted.
\<close>

definition example_world :: "str \<Rightarrow> world" where
  "example_world t =
     \<lparr>files = [input_file \<mapsto> Text t], may_read = (\<lambda>_. True), may_write = (\<lambda>_. True),
      may_replace = True, stdout = []\<rparr>"

text \<open>
  The lines still to come when the reader stands inside a line and the text \<open>t\<close> is
  what is left of the file: the rest of the current line first, which is empty when
  nothing is left.
\<close>

definition pending_lines :: "str \<Rightarrow> str list" where
  "pending_lines t = (if t = [] then [[]] else split_lines t)"

text \<open>A field that the writer writes as it is, with no quotes around it.\<close>

definition plain :: "str \<Rightarrow> bool" where
  "plain f = (\<forall>c \<in> set f. c \<noteq> delimiter \<and> c \<noteq> quotechar \<and> c \<noteq> CR \<and> c \<noteq> LF)"

text \<open>The text of a record before its line terminator, as \<open>writerow\<close> builds it.\<close>

definition record_text :: "row \<Rightarrow> str" where
  "record_text row =
     (if row = [] then [] else if row = [[]] then [quotechar, quotechar] else join_fields row)"

text \<open>
  The fields the reader holds: none has a CR, when it was fed none, and none is longer
  than the field limit.
\<close>

definition field_ok :: "str \<Rightarrow> bool" where
  "field_ok f = (CR \<notin> set f \<and> length f \<le> field_limit)"

definition reader_ok :: "ReaderObj \<Rightarrow> bool" where
  "reader_ok r = ((\<forall>f \<in> set (rfields r). field_ok f) \<and> field_ok (field r))"

text \<open>
  The record format of the default dialect of the csv module, in words, to compare the
  writer with: the fields of a row are separated by commas (44); a field stands between
  double quotes (34), with every double quote in it doubled, exactly when it holds a
  comma, a double quote, CR (13) or LF (10), and as it is otherwise; a row whose only
  field is empty is two double quotes; CR LF ends the row.
\<close>

definition excel_field :: "str \<Rightarrow> str" where
  "excel_field f =
     (if \<exists>c \<in> set f. c = 44 \<or> c = 34 \<or> c = 13 \<or> c = 10
      then [34] @ concat (map (\<lambda>c. if c = 34 then [34, 34] else [c]) f) @ [34]
      else f)"

definition excel_record :: "row \<Rightarrow> str" where
  "excel_record r =
     (if r = [] then []
      else if r = [[]] then [34, 34]
      else concat (map (\<lambda>f. excel_field f @ [44]) (butlast r)) @ excel_field (last r))
     @ [13, 10]"

section \<open>Properties of the transform on rows\<close>

lemma update_row_short:
  "length r < 2 \<Longrightarrow> update_row r = Inl IndexError"
  by (cases r) (auto simp: update_row_def getitem_def)

lemma update_row_two:
  "length r = 2 \<Longrightarrow> update_row r = Inr (r @ [dict_get translations_dict (r ! 0) []])"
  by (simp add: update_row_def getitem_def)

lemma update_row_long:
  "3 \<le> length r \<Longrightarrow> update_row r = Inr (r[2 := dict_get translations_dict (r ! 0) []])"
  by (cases r) (auto simp: update_row_def getitem_def setitem_def)

lemma update_row_Inr:
  assumes "update_row r = Inr r'"
  shows "2 \<le> length r"
    and "length r' = max 3 (length r)"
    and "r' ! 2 = dict_get translations_dict (r ! 0) []"
    and "j < length r \<Longrightarrow> j \<noteq> 2 \<Longrightarrow> r' ! j = r ! j"
proof -
  show len: "2 \<le> length r"
    using assms update_row_short [of r] by (cases "length r < 2") auto
  consider "length r = 2" | "3 \<le> length r" using len by linarith
  then have "length r' = max 3 (length r) \<and> r' ! 2 = dict_get translations_dict (r ! 0) []
      \<and> (j < length r \<longrightarrow> j \<noteq> 2 \<longrightarrow> r' ! j = r ! j)"
  proof cases
    case 1
    then show ?thesis using assms by (auto simp: update_row_two nth_append)
  next
    case 2
    then show ?thesis using assms by (auto simp: update_row_long)
  qed
  then show "length r' = max 3 (length r)"
    and "r' ! 2 = dict_get translations_dict (r ! 0) []"
    and "j < length r \<Longrightarrow> j \<noteq> 2 \<Longrightarrow> r' ! j = r ! j"
    by auto
qed

lemma update_row_Inl:
  "update_row r = Inl e \<Longrightarrow> e = IndexError \<and> length r < 2"
  using update_row_two [of r] update_row_long [of r] update_row_short [of r]
  by (cases "length r < 2"; cases "length r = 2") auto

text \<open>
  What the loop does, row by row: every written row is the update of the input row at
  the same place; the loop ends without exception exactly when it has written a row for
  every input row, and otherwise the exception is the one of the first row it has not
  written.
\<close>

lemma rows_loop_spec:
  "rows_loop rows = (out, e) \<Longrightarrow>
     length out \<le> length rows \<and>
     (\<forall>i < length out. update_row (rows ! i) = Inr (out ! i)) \<and>
     (case e of
        None \<Rightarrow> length out = length rows
      | Some x \<Rightarrow> length out < length rows \<and> update_row (rows ! length out) = Inl x)"
proof (induction rows arbitrary: out e)
  case Nil
  then show ?case by simp
next
  case (Cons r rs)
  show ?case
  proof (cases "update_row r")
    case (Inl x)
    with Cons.prems show ?thesis by auto
  next
    case (Inr r')
    obtain out' e' where rec: "rows_loop rs = (out', e')" by (cases "rows_loop rs")
    with Cons.prems Inr have out: "out = r' # out'" and e: "e = e'" by auto
    from Cons.IH [OF rec] show ?thesis
      unfolding out e using Inr by (auto simp: nth_Cons split: nat.splits option.splits)
  qed
qed

lemma dict_get_key:
  "k \<in> dict_keys d \<Longrightarrow> map_of d k = Some (dict_get d k dflt)"
  by (cases "map_of d k") (auto simp: dict_get_def dict_keys_def map_of_eq_None_iff)

lemma dict_get_no_key:
  "k \<notin> dict_keys d \<Longrightarrow> dict_get d k dflt = dflt"
  by (cases "map_of d k") (auto simp: dict_get_def dict_keys_def dest: map_of_SomeD intro: rev_image_eqI)

lemma rows_loop_error:
  "snd (rows_loop data) = (if \<exists>r \<in> set data. length r < 2 then Some IndexError else None)"
proof (induction data)
  case Nil
  show ?case by simp
next
  case (Cons r rs)
  show ?case
  proof (cases "update_row r")
    case (Inl e)
    then show ?thesis using update_row_Inl [OF Inl] by auto
  next
    case (Inr r')
    then have "2 \<le> length r" by (rule update_row_Inr(1))
    then show ?thesis using Inr Cons.IH by (cases "rows_loop rs") auto
  qed
qed

lemma rows_loop_length:
  "length (fst (rows_loop rows)) = length (takeWhile (\<lambda>r. 2 \<le> length r) rows)"
proof (induction rows)
  case Nil
  show ?case by simp
next
  case (Cons r rs)
  show ?case
  proof (cases "update_row r")
    case (Inl e)
    then show ?thesis using update_row_Inl [OF Inl] by simp
  next
    case (Inr r')
    then have "2 \<le> length r" by (rule update_row_Inr(1))
    then show ?thesis using Inr Cons.IH by (cases "rows_loop rs") simp
  qed
qed

text \<open>
  Claim C1. The loop writes a row for every data row up to the first one of fewer than
  two fields, so for every data row when there is none such, and this is exactly when it
  ends without exception. Every row it writes has a field at index 2, and that field is
  the value of the translation table at the input row's first field when the first field
  is a key of the table, and the empty string when it is not; this holds whether the
  field was appended (a row of two fields) or overwritten (three fields or more).
\<close>

theorem third_field_is_translation:
  assumes "rows_loop rows = (out, e)"
  shows "length out = length (takeWhile (\<lambda>r. 2 \<le> length r) rows) \<and>
     (e = None \<longleftrightarrow> (\<forall>r \<in> set rows. 2 \<le> length r)) \<and>
     (e = None \<longrightarrow> length out = length rows) \<and>
     (\<forall>i < length out.
        2 < length (out ! i) \<and>
        (rows ! i ! 0 \<in> dict_keys translations_dict \<longrightarrow>
           map_of translations_dict (rows ! i ! 0) = Some (out ! i ! 2)) \<and>
        (rows ! i ! 0 \<notin> dict_keys translations_dict \<longrightarrow> out ! i ! 2 = []))"
proof -
  have len: "length out = length (takeWhile (\<lambda>r. 2 \<le> length r) rows)"
    using rows_loop_length [of rows] assms by simp
  have err: "e = None \<longleftrightarrow> (\<forall>r \<in> set rows. 2 \<le> length r)"
    using rows_loop_error [of rows] assms by (force simp: not_le split: if_splits)
  have full: "e = None \<longrightarrow> length out = length rows"
    using rows_loop_spec [OF assms] by (auto split: option.splits)
  have "2 < length (out ! i) \<and>
        (rows ! i ! 0 \<in> dict_keys translations_dict \<longrightarrow>
           map_of translations_dict (rows ! i ! 0) = Some (out ! i ! 2)) \<and>
        (rows ! i ! 0 \<notin> dict_keys translations_dict \<longrightarrow> out ! i ! 2 = [])"
    if i: "i < length out" for i
  proof -
    have upd: "update_row (rows ! i) = Inr (out ! i)"
      using rows_loop_spec [OF assms] i by simp
    have "length (out ! i) = max 3 (length (rows ! i))"
      and "out ! i ! 2 = dict_get translations_dict (rows ! i ! 0) []"
      using update_row_Inr [OF upd] by auto
    then show ?thesis
      using dict_get_key [of "rows ! i ! 0" translations_dict "[]"]
        dict_get_no_key [of "rows ! i ! 0" translations_dict "[]"]
      by auto
  qed
  with len err full show ?thesis by blast
qed

theorem third_field_is_translation_witness:
  "rows_loop [[ascii ''^endIf^'', ascii ''en''], [ascii ''^x^'', ascii ''en'', ascii ''old'', ascii ''more'']]
     = ([[ascii ''^endIf^'', ascii ''en'', dict_get translations_dict (ascii ''^endIf^'') []],
         [ascii ''^x^'', ascii ''en'', [], ascii ''more'']], None)
   \<and> ascii ''^endIf^'' \<in> dict_keys translations_dict
   \<and> map_of translations_dict (ascii ''^endIf^'') =
       Some [0x005E, 0x0069, 0x0066, 0x005E, 0x30D6, 0x30ED, 0x30C3, 0x30AF, 0x306E, 0x7D42,
             0x4E86, 0x3092, 0x793A, 0x3057, 0x307E, 0x3059, 0x3002]
   \<and> ascii ''^x^'' \<notin> dict_keys translations_dict
   \<and> length (takeWhile (\<lambda>r. 2 \<le> length r)
        [[ascii ''^endIf^'', ascii ''en''], [ascii ''^x^'', ascii ''en'', ascii ''old'', ascii ''more'']]) = 2"
proof -
  let ?rows = "[[ascii ''^endIf^'', ascii ''en''], [ascii ''^x^'', ascii ''en'', ascii ''old'', ascii ''more'']]"
  let ?out = "[[ascii ''^endIf^'', ascii ''en'', dict_get translations_dict (ascii ''^endIf^'') []],
         [ascii ''^x^'', ascii ''en'', [], ascii ''more'']]"
  have run: "rows_loop ?rows = (?out, None)"
    by (simp add: update_row_def getitem_def setitem_def dict_get_def translations_dict_def ascii_def)
  have k1: "ascii ''^endIf^'' \<in> dict_keys translations_dict"
    by (simp add: dict_keys_def translations_dict_def ascii_def)
  have k2: "ascii ''^x^'' \<notin> dict_keys translations_dict"
    by (simp add: dict_keys_def translations_dict_def ascii_def)
  note inst = third_field_is_translation [OF run]
  have "map_of translations_dict (ascii ''^endIf^'') = Some (?out ! 0 ! 2)"
    using inst k1 by (simp add: All_less_Suc)
  moreover have "?out ! 0 ! 2 = [0x005E, 0x0069, 0x0066, 0x005E, 0x30D6, 0x30ED, 0x30C3, 0x30AF, 0x306E, 0x7D42,
             0x4E86, 0x3092, 0x793A, 0x3057, 0x307E, 0x3059, 0x3002]"
    by (simp add: dict_get_def translations_dict_def ascii_def)
  moreover have "length (takeWhile (\<lambda>r. 2 \<le> length r) ?rows) = 2"
    using inst by simp
  ultimately show ?thesis using run k1 k2 by simp
qed

lemma process_document_Cons:
  "process_document (header # data) pending = (out, e) \<Longrightarrow>
     \<exists>out' e'. rows_loop data = (out', e') \<and> out = update_header header # out' \<and>
       e = (case e' of Some x \<Rightarrow> Some x | None \<Rightarrow> pending)"
  by (cases "rows_loop data") (auto simp: process_document_def)

lemma process_document_Nil:
  "process_document [] pending = (out, e) \<Longrightarrow> out = [] \<and> e \<noteq> None"
  by (auto simp: process_document_def)

lemma update_header_nth:
  "j < length header \<Longrightarrow> update_header header ! j = header ! j"
  by (simp add: update_header_def nth_append)

lemma length_update_header:
  "length (update_header header) = (if length header < 3 then length header + 1 else length header)"
  by (simp add: update_header_def)

text \<open>
  Claim C2. When the transform ends without exception, the output document has as many
  rows as the input document; every data row keeps its fields at every index other than
  2 (so fields 0 and 1, and the fields at index 3 and beyond) and its number of fields,
  except that a row of two fields has three; the header keeps every field it had.
\<close>

theorem transform_frame:
  assumes "process_document rows pending = (out, None)"
  shows "length out = length rows \<and>
     (\<forall>i. 0 < i \<and> i < length rows \<longrightarrow>
        length (out ! i) = max 3 (length (rows ! i)) \<and>
        (\<forall>j < length (rows ! i). j \<noteq> 2 \<longrightarrow> out ! i ! j = rows ! i ! j)) \<and>
     (\<forall>j < length (rows ! 0). out ! 0 ! j = rows ! 0 ! j)"
proof (cases rows)
  case Nil
  with assms show ?thesis using process_document_Nil by blast
next
  case (Cons header data)
  from process_document_Cons [OF assms [unfolded Cons]]
  obtain out' where loop: "rows_loop data = (out', None)" and out: "out = update_header header # out'"
    by (auto split: option.splits)
  from rows_loop_spec [OF loop]
  have len: "length out' = length data"
    and upd: "\<And>i. i < length data \<Longrightarrow> update_row (data ! i) = Inr (out' ! i)"
    by auto
  have "length (out ! i) = max 3 (length (rows ! i)) \<and>
        (\<forall>j < length (rows ! i). j \<noteq> 2 \<longrightarrow> out ! i ! j = rows ! i ! j)"
    if pos: "0 < i" and lt: "i < length rows" for i
  proof -
    obtain k where k: "i = Suc k" using pos by (cases i) auto
    with lt Cons have "k < length data" by simp
    from update_row_Inr [OF upd [OF this]] show ?thesis
      by (simp add: k Cons out)
  qed
  then show ?thesis
    by (simp add: Cons out len update_header_nth)
qed

theorem transform_frame_witness:
  "process_document
     [[ascii ''Name'', ascii ''En''], [ascii ''^x^'', ascii ''en'', ascii ''old'', ascii ''more'']] None
   = ([[ascii ''Name'', ascii ''En'', ascii ''DescriptionJa''],
       [ascii ''^x^'', ascii ''en'', [], ascii ''more'']], None)
   \<and> [ascii ''^x^'', ascii ''en'', [], ascii ''more''] ! 3 = ascii ''more''"
proof -
  let ?rows = "[[ascii ''Name'', ascii ''En''], [ascii ''^x^'', ascii ''en'', ascii ''old'', ascii ''more'']]"
  let ?out = "[[ascii ''Name'', ascii ''En'', ascii ''DescriptionJa''],
       [ascii ''^x^'', ascii ''en'', [], ascii ''more'']]"
  have run: "process_document ?rows None = (?out, None)"
    by (simp add: process_document_def update_header_def update_row_def getitem_def setitem_def
        dict_get_def translations_dict_def ascii_def)
  have "?out ! 1 ! 3 = ?rows ! 1 ! 3"
    using transform_frame [OF run] by simp
  then show ?thesis using run by simp
qed

text \<open>
  Claim C3. A header of fewer than three fields gets exactly one more field, the label
  DescriptionJa, at its end; a header of three fields or more is written as it is. The
  updated header is the first row of the output, whatever happens to the rows after it.
\<close>

theorem header_label:
  "(length header < 3 \<longrightarrow>
      update_header header = header @ [ascii ''DescriptionJa''] \<and>
      length (update_header header) = length header + 1) \<and>
   (3 \<le> length header \<longrightarrow> update_header header = header) \<and>
   hd (fst (process_document (header # data) pending)) = update_header header"
  by (cases "rows_loop data") (simp add: update_header_def process_document_def)

theorem header_label_witness:
  "length [ascii ''Name'', ascii ''DescriptionEn''] < 3
   \<and> update_header [ascii ''Name'', ascii ''DescriptionEn'']
       = [ascii ''Name'', ascii ''DescriptionEn'', ascii ''DescriptionJa'']
   \<and> 3 \<le> length [ascii ''Name'', ascii ''DescriptionEn'', ascii ''Ja'', ascii ''Note'']
   \<and> update_header [ascii ''Name'', ascii ''DescriptionEn'', ascii ''Ja'', ascii ''Note'']
       = [ascii ''Name'', ascii ''DescriptionEn'', ascii ''Ja'', ascii ''Note'']"
  using header_label [of "[ascii ''Name'', ascii ''DescriptionEn'']" "[]" None]
    header_label [of "[ascii ''Name'', ascii ''DescriptionEn'', ascii ''Ja'', ascii ''Note'']" "[]" None]
  by simp

text \<open>
  Claim C8. The data row with first field \<^verbatim>\<open>^root^\<close> and second field
  \<^verbatim>\<open>Writes the relative path to the site root.\<close> is written with these two fields
  unchanged and with the Japanese description of the claim (given by its code points) as
  third field. The row is what the reader yields for the line of the example, and the
  writer writes its three fields with no quotes, since none of them needs any.
\<close>

theorem root_example:
  "update_row [ascii ''^root^'', ascii ''Writes the relative path to the site root.'']
   = Inr [ascii ''^root^'', ascii ''Writes the relative path to the site root.'',
     [0x30B5, 0x30A4, 0x30C8, 0x306E, 0x30EB, 0x30FC, 0x30C8, 0x30C7, 0x30A3, 0x30EC, 0x30AF,
      0x30C8, 0x30EA, 0x3078, 0x306E, 0x76F8, 0x5BFE, 0x30D1, 0x30B9, 0x3092, 0x66F8, 0x304D,
      0x51FA, 0x3057, 0x307E, 0x3059, 0x3002, 0x753B, 0x50CF, 0x3084, 0x0043, 0x0053, 0x0053,
      0x3078, 0x306E, 0x30D1, 0x30B9, 0x6307, 0x5B9A, 0x306B, 0x4FBF, 0x5229, 0x3067, 0x3059,
      0x3002]]
   \<and> csv_reader (file_lines (ascii ''^root^,\"Writes the relative path to the site root.\"'')) None
     = ([[ascii ''^root^'', ascii ''Writes the relative path to the site root.'']], None)
   \<and> writerow [ascii ''^root^'', ascii ''Writes the relative path to the site root.'',
     [0x30B5, 0x30A4, 0x30C8, 0x306E, 0x30EB, 0x30FC, 0x30C8, 0x30C7, 0x30A3, 0x30EC, 0x30AF,
      0x30C8, 0x30EA, 0x3078, 0x306E, 0x76F8, 0x5BFE, 0x30D1, 0x30B9, 0x3092, 0x66F8, 0x304D,
      0x51FA, 0x3057, 0x307E, 0x3059, 0x3002, 0x753B, 0x50CF, 0x3084, 0x0043, 0x0053, 0x0053,
      0x3078, 0x306E, 0x30D1, 0x30B9, 0x6307, 0x5B9A, 0x306B, 0x4FBF, 0x5229, 0x3067, 0x3059,
      0x3002]]
     = ascii ''^root^,Writes the relative path to the site root.,'' @
     [0x30B5, 0x30A4, 0x30C8, 0x306E, 0x30EB, 0x30FC, 0x30C8, 0x30C7, 0x30A3, 0x30EC, 0x30AF,
      0x30C8, 0x30EA, 0x3078, 0x306E, 0x76F8, 0x5BFE, 0x30D1, 0x30B9, 0x3092, 0x66F8, 0x304D,
      0x51FA, 0x3057, 0x307E, 0x3059, 0x3002, 0x753B, 0x50CF, 0x3084, 0x0043, 0x0053, 0x0053,
      0x3078, 0x306E, 0x30D1, 0x30B9, 0x6307, 0x5B9A, 0x306B, 0x4FBF, 0x5229, 0x3067, 0x3059,
      0x3002] @ [CR, LF]"
proof -
  have "update_row [ascii ''^root^'', ascii ''Writes the relative path to the site root.'']
   = Inr [ascii ''^root^'', ascii ''Writes the relative path to the site root.'',
     [0x30B5, 0x30A4, 0x30C8, 0x306E, 0x30EB, 0x30FC, 0x30C8, 0x30C7, 0x30A3, 0x30EC, 0x30AF,
      0x30C8, 0x30EA, 0x3078, 0x306E, 0x76F8, 0x5BFE, 0x30D1, 0x30B9, 0x3092, 0x66F8, 0x304D,
      0x51FA, 0x3057, 0x307E, 0x3059, 0x3002, 0x753B, 0x50CF, 0x3084, 0x0043, 0x0053, 0x0053,
      0x3078, 0x306E, 0x30D1, 0x30B9, 0x6307, 0x5B9A, 0x306B, 0x4FBF, 0x5229, 0x3067, 0x3059,
      0x3002]]"
    by (simp add: update_row_def getitem_def dict_get_def translations_dict_def ascii_def)
  moreover have "csv_reader (file_lines (ascii ''^root^,\"Writes the relative path to the site root.\"'')) None
     = ([[ascii ''^root^'', ascii ''Writes the relative path to the site root.'']], None)"
    by (simp add: csv_reader_def file_lines_def ascii_def parse_reset_def parse_process_char_def
        start_field_def parse_add_char_def parse_save_field_def field_limit_def)
  moreover have "writerow [ascii ''^root^'', ascii ''Writes the relative path to the site root.'',
     [0x30B5, 0x30A4, 0x30C8, 0x306E, 0x30EB, 0x30FC, 0x30C8, 0x30C7, 0x30A3, 0x30EC, 0x30AF,
      0x30C8, 0x30EA, 0x3078, 0x306E, 0x76F8, 0x5BFE, 0x30D1, 0x30B9, 0x3092, 0x66F8, 0x304D,
      0x51FA, 0x3057, 0x307E, 0x3059, 0x3002, 0x753B, 0x50CF, 0x3084, 0x0043, 0x0053, 0x0053,
      0x3078, 0x306E, 0x30D1, 0x30B9, 0x6307, 0x5B9A, 0x306B, 0x4FBF, 0x5229, 0x3067, 0x3059,
      0x3002]]
     = ascii ''^root^,Writes the relative path to the site root.,'' @
     [0x30B5, 0x30A4, 0x30C8, 0x306E, 0x30EB, 0x30FC, 0x30C8, 0x30C7, 0x30A3, 0x30EC, 0x30AF,
      0x30C8, 0x30EA, 0x3078, 0x306E, 0x76F8, 0x5BFE, 0x30D1, 0x30B9, 0x3092, 0x66F8, 0x304D,
      0x51FA, 0x3057, 0x307E, 0x3059, 0x3002, 0x753B, 0x50CF, 0x3084, 0x0043, 0x0053, 0x0053,
      0x3078, 0x306E, 0x30D1, 0x30B9, 0x6307, 0x5B9A, 0x306B, 0x4FBF, 0x5229, 0x3067, 0x3059,
      0x3002] @ [CR, LF]"
    by (simp add: writerow_def join_append_def needs_quotes_def ascii_def)
  ultimately show ?thesis by simp
qed

section \<open>Evaluation of concrete runs\<close>

lemmas reader_eval =
  csv_reader_def file_lines_def parse_reset_def parse_process_char_def start_field_def
  parse_add_char_def parse_save_field_def field_limit_def

lemmas writer_eval = writerow_def join_append_def needs_quotes_def

lemmas rows_eval =
  process_document_def update_header_def update_row_def getitem_def setitem_def dict_get_def
  translations_dict_def

lemmas world_eval =
  main_def final_world_def example_world_def open_r_def open_w_def file_write_def
  os_replace_def print_def input_file_def output_file_def

section \<open>Index safety and field counts\<close>

lemma process_document_error:
  "snd (process_document (header # data) pending) =
     (if \<exists>r \<in> set data. length r < 2 then Some IndexError else pending)"
  using rows_loop_error [of data]
  by (cases "rows_loop data") (auto simp: process_document_def)

lemma text_lines_Text [simp]: "text_lines (Text t) = file_lines t"
  by (simp add: text_lines_def)

lemma text_error_Text [simp]: "text_error (Text t) = None"
  by (simp add: text_error_def)

lemma text_lines_Undecodable [simp]: "text_lines (Undecodable t) = complete_lines t"
  by (simp add: text_lines_def)

lemma text_error_Undecodable [simp]: "text_error (Undecodable t) = Some UnicodeDecodeError"
  by (simp add: text_error_def)

lemma main_error_of_document:
  assumes "open_r input_file w = Inr c" and "may_write w output_file"
    and "snd (process_document (fst (csv_reader (text_lines c) (text_error c)))
           (snd (csv_reader (text_lines c) (text_error c)))) = Some e"
  shows "fst (main w) = Some e"
  using assms
  by (cases "csv_reader (text_lines c) (text_error c)";
      cases "process_document (fst (csv_reader (text_lines c) (text_error c)))
        (snd (csv_reader (text_lines c) (text_error c)))")
     (simp add: main_def open_w_def Let_def)

text \<open>
  Claim C9. The loop body reads field 0 and field 1 of the row before anything else, so
  a data row of fewer than two fields raises IndexError (also a row of one field, whose
  field 1 is read and never used), and a row of two fields or more raises nothing. A
  document with such a data row ends the loop, and the run, with IndexError; when every
  data row has two fields or more, the loop raises nothing and the only exception left is
  the one the reader itself may raise.
\<close>

theorem index_safety:
  "(length r < 2 \<longrightarrow> update_row r = Inl IndexError) \<and>
   (2 \<le> length r \<longrightarrow> (\<exists>r'. update_row r = Inr r')) \<and>
   ((\<exists>r \<in> set data. length r < 2) \<longrightarrow>
      snd (process_document (header # data) pending) = Some IndexError) \<and>
   ((\<forall>r \<in> set data. 2 \<le> length r) \<longrightarrow>
      snd (rows_loop data) = None \<and> snd (process_document (header # data) pending) = pending) \<and>
   (open_r input_file w = Inr (Text t) \<and> may_write w output_file \<and>
    fst (csv_reader (file_lines t) None) = header # data \<and> (\<exists>r \<in> set data. length r < 2) \<longrightarrow>
      fst (main w) = Some IndexError)"
proof -
  have "update_row r = Inl IndexError" if "length r < 2"
    using that by (rule update_row_short)
  moreover have "\<exists>r'. update_row r = Inr r'" if "2 \<le> length r"
    using that update_row_two [of r] update_row_long [of r] by (cases "length r = 2") auto
  moreover have "snd (rows_loop data) = None" if "\<forall>r \<in> set data. 2 \<le> length r"
    using that by (auto simp: rows_loop_error)
  moreover have "snd (process_document (header # data) pending) = pending"
    if "\<forall>r \<in> set data. 2 \<le> length r"
    using that by (auto simp: process_document_error)
  moreover have "fst (main w) = Some IndexError"
    if "open_r input_file w = Inr (Text t)" "may_write w output_file"
      "fst (csv_reader (file_lines t) None) = header # data" "\<exists>r \<in> set data. length r < 2"
    using that main_error_of_document [of w "Text t" IndexError]
    by (simp add: process_document_error)
  ultimately show ?thesis
    by (simp add: process_document_error)
qed

theorem index_safety_witness:
  "update_row [ascii ''^root^''] = Inl IndexError
   \<and> (\<exists>r'. update_row [ascii ''^x^'', ascii ''en''] = Inr r')
   \<and> snd (process_document [[ascii ''Name'', ascii ''En''], [ascii ''^x^'', ascii ''en''], []] None)
       = Some IndexError
   \<and> snd (rows_loop [[ascii ''^x^'', ascii ''en'']]) = None
   \<and> fst (main (example_world (ascii ''N,E'' @ [LF] @ ascii ''x'' @ [LF]))) = Some IndexError"
proof -
  let ?w = "example_world (ascii ''N,E'' @ [LF] @ ascii ''x'' @ [LF])"
  have rd: "fst (csv_reader (file_lines (ascii ''N,E'' @ [LF] @ ascii ''x'' @ [LF])) None)
      = [ascii ''N'', ascii ''E''] # [[ascii ''x'']]"
    by (simp add: reader_eval ascii_def)
  have op: "open_r input_file ?w = Inr (Text (ascii ''N,E'' @ [LF] @ ascii ''x'' @ [LF]))"
    by (simp add: example_world_def open_r_def)
  have wr: "may_write ?w output_file"
    by (simp add: example_world_def)
  show ?thesis
    using index_safety [of "[ascii ''^root^'']" "[[ascii ''^x^'', ascii ''en''], []]"
        "[ascii ''Name'', ascii ''En'']" None]
      index_safety [of "[ascii ''^x^'', ascii ''en'']" "[[ascii ''^x^'', ascii ''en'']]"
        "[ascii ''Name'', ascii ''En'']" None]
      index_safety [of "[]" "[[ascii ''x'']]" "[ascii ''N'', ascii ''E'']" None ?w
        "ascii ''N,E'' @ [LF] @ ascii ''x'' @ [LF]"]
      rd op wr
    by simp
qed

text \<open>
  Claim C10, as the code has it. When the transform ends without exception, every data
  row of the output has at least three fields: exactly three when the input row had
  fewer than three, and n when it had n, for n at least three. The header has one field
  more than it had when it had fewer than three, and as many as it had otherwise, so it
  has at least three fields only when the input header had at least two.
\<close>

theorem output_field_counts:
  assumes "process_document rows pending = (out, None)" and "i < length rows"
  shows "(0 < i \<longrightarrow> 3 \<le> length (out ! i) \<and> length (out ! i) = max 3 (length (rows ! i))) \<and>
     (i = 0 \<longrightarrow> length (out ! i) =
        (if length (rows ! i) < 3 then length (rows ! i) + 1 else length (rows ! i)))"
proof (cases rows)
  case Nil
  with assms show ?thesis by simp
next
  case (Cons header data)
  from process_document_Cons [OF assms(1) [unfolded Cons]]
  obtain out' where loop: "rows_loop data = (out', None)" and out: "out = update_header header # out'"
    by (auto split: option.splits)
  from rows_loop_spec [OF loop]
  have upd: "\<And>k. k < length data \<Longrightarrow> update_row (data ! k) = Inr (out' ! k)"
    by auto
  show ?thesis
  proof (cases i)
    case 0
    then show ?thesis by (simp add: Cons out length_update_header)
  next
    case (Suc k)
    with assms(2) Cons have "k < length data" by simp
    from update_row_Inr(2) [OF upd [OF this]] show ?thesis
      by (simp add: Suc Cons out)
  qed
qed

theorem output_field_counts_witness:
  "process_document [[ascii ''Name'', ascii ''En''], [ascii ''^x^'', ascii ''en'']] None
     = ([[ascii ''Name'', ascii ''En'', ascii ''DescriptionJa''], [ascii ''^x^'', ascii ''en'', []]], None)
   \<and> length [ascii ''^x^'', ascii ''en'', []::str] = max 3 (length [ascii ''^x^'', ascii ''en''])"
proof -
  let ?rows = "[[ascii ''Name'', ascii ''En''], [ascii ''^x^'', ascii ''en'']]"
  let ?out = "[[ascii ''Name'', ascii ''En'', ascii ''DescriptionJa''], [ascii ''^x^'', ascii ''en'', []]]"
  have run: "process_document ?rows None = (?out, None)"
    by (simp add: rows_eval ascii_def)
  have "length (?out ! 1) = max 3 (length (?rows ! 1))"
    using output_field_counts [OF run, of 1] by simp
  then show ?thesis using run by simp
qed

text \<open>
  The claim as stated fails for a header of one field: the run on the file that holds
  the one line \<^verbatim>\<open>Name\<close> succeeds, and the header it writes has two fields.
\<close>

theorem header_of_two_fields_counterexample:
  "fst (main (example_world (ascii ''Name'' @ [LF]))) = None
   \<and> files (final_world (example_world (ascii ''Name'' @ [LF]))) input_file
       = Some (Text (ascii ''Name,DescriptionJa'' @ [CR, LF]))
   \<and> csv_reader (file_lines (ascii ''Name,DescriptionJa'' @ [CR, LF])) None
       = ([[ascii ''Name'', ascii ''DescriptionJa'']], None)
   \<and> \<not> 3 \<le> length [ascii ''Name'', ascii ''DescriptionJa'']"
proof -
  have rd: "csv_reader (file_lines (ascii ''Name'' @ [LF])) None = ([[ascii ''Name'']], None)"
    by (simp add: reader_eval ascii_def)
  have doc: "process_document [[ascii ''Name'']] None = ([[ascii ''Name'', ascii ''DescriptionJa'']], None)"
    by (simp add: process_document_def update_header_def)
  have wr: "writerow [ascii ''Name'', ascii ''DescriptionJa''] = ascii ''Name,DescriptionJa'' @ [CR, LF]"
    by (simp add: writer_eval ascii_def)
  have "fst (main (example_world (ascii ''Name'' @ [LF]))) = None"
    and "files (final_world (example_world (ascii ''Name'' @ [LF]))) input_file
       = Some (Text (ascii ''Name,DescriptionJa'' @ [CR, LF]))"
    by (simp_all add: world_eval rd doc wr)
  moreover have "csv_reader (file_lines (ascii ''Name,DescriptionJa'' @ [CR, LF])) None
       = ([[ascii ''Name'', ascii ''DescriptionJa'']], None)"
    by (simp add: reader_eval ascii_def)
  ultimately show ?thesis by simp
qed

section \<open>The file at the final path\<close>

lemma input_file_neq_output_file: "input_file \<noteq> output_file"
  by (simp add: input_file_def output_file_def)

lemma writerows_other_path:
  "p \<noteq> output_file \<Longrightarrow> w' \<in> set (writerows w out) \<Longrightarrow> files w' p = files w p"
proof (induction out arbitrary: w)
  case Nil
  then show ?case by simp
next
  case (Cons r rs)
  let ?w1 = "file_write output_file (writerow r) w"
  have step: "files ?w1 p = files w p"
    using Cons.prems(1) by (simp add: file_write_def)
  from Cons.prems(2) have "w' = ?w1 \<or> w' \<in> set (writerows ?w1 rs)"
    by (simp add: Let_def)
  then show ?case
    using step Cons.IH [OF Cons.prems(1), of ?w1] by auto
qed

lemma writerows_output:
  "files w output_file = Some (Text t0) \<Longrightarrow>
     files (last (w # writerows w out)) output_file = Some (Text (t0 @ concat (map writerow out)))"
proof (induction out arbitrary: w t0)
  case Nil
  then show ?case by simp
next
  case (Cons r rs)
  let ?w1 = "file_write output_file (writerow r) w"
  have "files ?w1 output_file = Some (Text (t0 @ writerow r))"
    using Cons.prems by (simp add: file_write_def)
  from Cons.IH [OF this] show ?case
    by (simp add: Let_def)
qed

lemma writerows_flags:
  "w' \<in> set (writerows w out) \<Longrightarrow>
     may_read w' = may_read w \<and> may_write w' = may_write w \<and> may_replace w' = may_replace w
     \<and> stdout w' = stdout w"
proof (induction out arbitrary: w)
  case Nil
  then show ?case by simp
next
  case (Cons r rs)
  let ?w1 = "file_write output_file (writerow r) w"
  from Cons.prems have "w' = ?w1 \<or> w' \<in> set (writerows ?w1 rs)"
    by (simp add: Let_def)
  then show ?case
    using Cons.IH [of ?w1] by (auto simp: file_write_def)
qed

lemma reader_from_raising: "snd (reader_from (Some e) r ls) \<noteq> None"
proof (induction ls arbitrary: r)
  case Nil
  show ?case by simp
next
  case (Cons l ls)
  show ?case
  proof (cases "parse_line r l")
    case (Inl x)
    then show ?thesis by simp
  next
    case (Inr r')
    then show ?thesis
      using Cons [of parse_reset] Cons [of r']
      by (cases "reader_from (Some e) parse_reset ls") auto
  qed
qed

lemma process_document_success:
  "process_document rows pending = (out, None) \<Longrightarrow> pending = None \<and> rows \<noteq> []"
  using process_document_error [of "hd rows" "tl rows" pending] process_document_Nil [of pending out None]
  by (cases rows) (auto split: if_splits)

text \<open>A transform that raises nothing has read a file that decodes.\<close>

lemma success_decodes:
  assumes "csv_reader (text_lines c) (text_error c) = (rows, pending)"
    and "process_document rows pending = (out, None)"
  shows "\<exists>t. c = Text t"
proof (cases c)
  case (Text t)
  then show ?thesis by simp
next
  case (Undecodable t)
  have "pending \<noteq> None"
    using assms(1) reader_from_raising [of UnicodeDecodeError parse_reset "complete_lines t"]
    by (simp add: Undecodable csv_reader_def)
  with process_document_success [OF assms(2)] show ?thesis by simp
qed

text \<open>
  The run, case by case. It fails at once when the input cannot be opened or the output
  cannot be created; otherwise the output file is created empty, the rows are written
  one by one, and the run fails with the exception of the transform (which is the one of
  reading, when reading raises and no row before has), or with the one of the
  replacement, or succeeds with two more steps: the replacement and the message.
\<close>

lemma main_cases:
  assumes "main w = (res, tr)"
  obtains
    (no_input) e where "open_r input_file w = Inl e" "res = Some e" "tr = []"
  | (no_output) c e where "open_r input_file w = Inr c" "open_w output_file w = Inl e"
      "res = Some e" "tr = []"
  | (failed) c w1 rows pending out e where "open_r input_file w = Inr c"
      "open_w output_file w = Inr w1"
      "csv_reader (text_lines c) (text_error c) = (rows, pending)"
      "process_document rows pending = (out, Some e)" "res = Some e"
      "tr = w1 # writerows w1 out"
  | (not_replaced) t w1 rows pending out e where "open_r input_file w = Inr (Text t)"
      "open_w output_file w = Inr w1" "csv_reader (file_lines t) None = (rows, pending)"
      "process_document rows pending = (out, None)"
      "os_replace output_file input_file (last (w1 # writerows w1 out)) = Inl e"
      "res = Some e" "tr = w1 # writerows w1 out"
  | (replaced) t w1 rows pending out w3 where "open_r input_file w = Inr (Text t)"
      "open_w output_file w = Inr w1" "csv_reader (file_lines t) None = (rows, pending)"
      "process_document rows pending = (out, None)"
      "os_replace output_file input_file (last (w1 # writerows w1 out)) = Inr w3"
      "res = None"
      "tr = (w1 # writerows w1 out) @
         [w3, print ''Updated export_tags.csv with Japanese descriptions.'' w3]"
proof (cases "open_r input_file w")
  case (Inl e)
  then have "main w = (Some e, [])" by (simp add: main_def)
  with assms have "res = Some e" "tr = []" by simp_all
  then show ?thesis by (rule no_input [OF Inl])
next
  case c: (Inr c)
  show ?thesis
  proof (cases "open_w output_file w")
    case (Inl e)
    with c have "main w = (Some e, [])" by (simp add: main_def)
    with assms have "res = Some e" "tr = []" by simp_all
    then show ?thesis by (rule no_output [OF c Inl])
  next
    case w1: (Inr w1)
    obtain rows pending where rd: "csv_reader (text_lines c) (text_error c) = (rows, pending)"
      by (cases "csv_reader (text_lines c) (text_error c)")
    obtain out e where doc: "process_document rows pending = (out, e)"
      by (cases "process_document rows pending")
    show ?thesis
    proof (cases e)
      case (Some x)
      have "main w = (Some x, w1 # writerows w1 out)"
        using c w1 rd doc Some by (simp add: main_def)
      with assms have "res = Some x" "tr = w1 # writerows w1 out" by simp_all
      then show ?thesis
        by (rule failed [OF c w1 rd doc [unfolded Some]])
    next
      case None
      from success_decodes [OF rd doc [unfolded None]]
      obtain t where t: "c = Text t" by blast
      have rd': "csv_reader (file_lines t) None = (rows, pending)"
        using rd by (simp add: t)
      show ?thesis
      proof (cases "os_replace output_file input_file (last (w1 # writerows w1 out))")
        case (Inl x)
        have "main w = (Some x, w1 # writerows w1 out)"
          using c w1 rd doc None Inl by (simp add: main_def)
        with assms have "res = Some x" "tr = w1 # writerows w1 out" by simp_all
        then show ?thesis
          by (rule not_replaced [OF c [unfolded t] w1 rd' doc [unfolded None] Inl])
      next
        case (Inr w3)
        have "main w = (None, (w1 # writerows w1 out) @
            [w3, print ''Updated export_tags.csv with Japanese descriptions.'' w3])"
          using c w1 rd doc None Inr by (simp add: main_def)
        with assms have "res = None" "tr = (w1 # writerows w1 out) @
            [w3, print ''Updated export_tags.csv with Japanese descriptions.'' w3]"
          by simp_all
        then show ?thesis
          by (rule replaced [OF c [unfolded t] w1 rd' doc [unfolded None] Inr])
      qed
    qed
  qed
qed

lemma open_w_files:
  "open_w output_file w = Inr w1 \<Longrightarrow>
     files w1 input_file = files w input_file \<and> files w1 output_file = Some (Text [])"
  using input_file_neq_output_file by (auto simp: open_w_def split: if_splits)

lemma os_replace_files:
  "os_replace output_file input_file w2 = Inr w3 \<Longrightarrow>
     files w3 input_file = files w2 output_file \<and> files w3 output_file = None"
  using input_file_neq_output_file by (auto simp: os_replace_def split: option.splits if_splits)

text \<open>
  Claim C5. In every world the run passes through, the file at the final path is the
  file the run started with, unless the run has succeeded and the world is one of the
  two after the replacement: there the file holds the complete output document, every
  row that the transform wrote. So a run that ends with an exception, raised while
  reading, updating or writing or by the replacement itself, leaves the final path as it
  was, and no world shows a partly written document there.
\<close>

theorem final_path_atomic:
  assumes "main w = (res, tr)"
  shows "(res \<noteq> None \<longrightarrow>
            (\<forall>w' \<in> set tr. files w' input_file = files w input_file) \<and>
            files (final_world w) input_file = files w input_file) \<and>
         (\<forall>w' \<in> set tr.
            files w' input_file = files w input_file \<or>
            (res = None \<and>
             (\<exists>t. files w input_file = Some (Text t) \<and>
                snd (process_document (fst (csv_reader (file_lines t) None)) (snd (csv_reader (file_lines t) None))) = None \<and>
                files w' input_file =
                  Some (Text (concat (map writerow
                    (fst (process_document (fst (csv_reader (file_lines t) None))
                       (snd (csv_reader (file_lines t) None))))))))))"
proof -
  have fw: "final_world w = last (w # tr)"
    using assms by (simp add: final_world_def)
  have kept: "files w' input_file = files w input_file"
    if "open_w output_file w = Inr w1" "w' \<in> set (w1 # writerows w1 out)" for w1 w' out
    using that open_w_files [OF that(1)]
      writerows_other_path [OF input_file_neq_output_file, of w' w1 out]
    by auto
  from assms show ?thesis
  proof (cases rule: main_cases)
    case (no_input e)
    then show ?thesis using fw by simp
  next
    case (no_output c e)
    then show ?thesis using fw by simp
  next
    case (failed c w1 rows pending out e)
    have "\<forall>w' \<in> set tr. files w' input_file = files w input_file"
      using kept [OF failed(2)] failed(6) by blast
    moreover have "last (w # tr) \<in> set tr"
      using failed(6) by simp
    ultimately show ?thesis using fw failed(5) by auto
  next
    case (not_replaced t w1 rows pending out e)
    have "\<forall>w' \<in> set tr. files w' input_file = files w input_file"
      using kept [OF not_replaced(2)] not_replaced(7) by blast
    moreover have "last (w # tr) \<in> set tr"
      using not_replaced(7) by simp
    ultimately show ?thesis using fw not_replaced(6) by auto
  next
    case (replaced t w1 rows pending out w3)
    let ?w2 = "last (w1 # writerows w1 out)"
    have before: "\<forall>w' \<in> set (w1 # writerows w1 out). files w' input_file = files w input_file"
      using kept [OF replaced(2)] by blast
    have inp: "files w input_file = Some (Text t)"
      using replaced(1) by (auto simp: open_r_def split: option.splits if_splits)
    have "files ?w2 output_file = Some (Text ([] @ concat (map writerow out)))"
      using open_w_files [OF replaced(2)] by (intro writerows_output) simp
    then have w3: "files w3 input_file = Some (Text (concat (map writerow out)))"
      using os_replace_files [OF replaced(5)] by simp
    then have w4: "files (print ''Updated export_tags.csv with Japanese descriptions.'' w3) input_file
        = Some (Text (concat (map writerow out)))"
      by (simp add: print_def)
    show ?thesis
      using before inp w3 w4 replaced(3,4,6,7) by auto
  qed
qed

theorem final_path_atomic_witness:
  "main (example_world (ascii ''N,E'' @ LF # ascii ''x'' @ [LF]))
     = (Some IndexError,
        [(example_world (ascii ''N,E'' @ LF # ascii ''x'' @ [LF]))
           \<lparr>files := [input_file \<mapsto> Text (ascii ''N,E'' @ LF # ascii ''x'' @ [LF]),
                      output_file \<mapsto> Text []]\<rparr>,
         (example_world (ascii ''N,E'' @ LF # ascii ''x'' @ [LF]))
           \<lparr>files := [input_file \<mapsto> Text (ascii ''N,E'' @ LF # ascii ''x'' @ [LF]),
                      output_file \<mapsto> Text (ascii ''N,E,DescriptionJa'' @ [CR, LF])]\<rparr>])
   \<and> files (final_world (example_world (ascii ''N,E'' @ LF # ascii ''x'' @ [LF]))) input_file
       = Some (Text (ascii ''N,E'' @ LF # ascii ''x'' @ [LF]))"
proof -
  let ?t = "ascii ''N,E'' @ LF # ascii ''x'' @ [LF]"
  have rd: "csv_reader (file_lines ?t) None = ([[ascii ''N'', ascii ''E''], [ascii ''x'']], None)"
    by (simp add: reader_eval ascii_def)
  have doc: "process_document [[ascii ''N'', ascii ''E''], [ascii ''x'']] None
      = ([[ascii ''N'', ascii ''E'', ascii ''DescriptionJa'']], Some IndexError)"
    by (simp add: process_document_def update_header_def update_row_def getitem_def)
  have wr: "writerow [ascii ''N'', ascii ''E'', ascii ''DescriptionJa''] = ascii ''N,E,DescriptionJa'' @ [CR, LF]"
    by (simp add: writer_eval ascii_def)
  have run: "main (example_world ?t)
     = (Some IndexError,
        [(example_world ?t)\<lparr>files := [input_file \<mapsto> Text ?t, output_file \<mapsto> Text []]\<rparr>,
         (example_world ?t)\<lparr>files := [input_file \<mapsto> Text ?t,
            output_file \<mapsto> Text (ascii ''N,E,DescriptionJa'' @ [CR, LF])]\<rparr>])"
    by (simp add: main_def example_world_def open_r_def open_w_def file_write_def rd doc wr
        input_file_neq_output_file)
  have "files (final_world (example_world ?t)) input_file = files (example_world ?t) input_file"
    using final_path_atomic [OF run] by simp
  then show ?thesis
    using run by (simp add: example_world_def)
qed

section \<open>The reader, character by character\<close>

lemma split_lines_eq_Nil [simp]: "split_lines t = [] \<longleftrightarrow> t = []"
  by (cases t) (auto split: list.splits)

lemma pending_lines_not_Nil [simp]: "pending_lines t \<noteq> []"
  by (simp add: pending_lines_def)

lemma pending_lines_nonempty: "t \<noteq> [] \<Longrightarrow> split_lines t = pending_lines t"
  by (simp add: pending_lines_def)

lemma pending_lines_Cons:
  "c \<noteq> LF \<Longrightarrow> pending_lines (c # cs) = (c # hd (pending_lines cs)) # tl (pending_lines cs)"
  by (cases "split_lines cs") (auto simp: pending_lines_def)

lemma pending_lines_LF: "pending_lines (LF # cs) = [LF] # split_lines cs"
  by (simp add: pending_lines_def)

lemma reader_from_char:
  "reader_from src r ((c # l) # ls) =
     (case parse_process_char r (Some c) of
        Inl e \<Rightarrow> ([], Some e)
      | Inr r' \<Rightarrow> reader_from src r' (l # ls))"
  by (simp split: sum.splits)

lemma reader_step:
  assumes "c \<noteq> LF"
  shows "reader_from src r (pending_lines (c # cs)) =
     (case parse_process_char r (Some c) of
        Inl e \<Rightarrow> ([], Some e)
      | Inr r' \<Rightarrow> reader_from src r' (pending_lines cs))"
proof -
  obtain l ls where p: "pending_lines cs = l # ls"
    by (cases "pending_lines cs") auto
  have "pending_lines (c # cs) = (c # l) # ls"
    using pending_lines_Cons [OF assms, of cs] p by simp
  then show ?thesis
    unfolding p by (simp only: reader_from_char)
qed

lemma reader_step_LF:
  "reader_from src r (pending_lines (LF # cs)) =
     (case parse_process_char r (Some LF) of
        Inl e \<Rightarrow> ([], Some e)
      | Inr r1 \<Rightarrow>
          (case parse_process_char r1 None of
             Inl e \<Rightarrow> ([], Some e)
           | Inr r2 \<Rightarrow>
               if state r2 = START_RECORD
               then (case reader_from src parse_reset (split_lines cs) of
                       (rows, e) \<Rightarrow> (rfields r2 # rows, e))
               else reader_from src r2 (split_lines cs)))"
  by (simp add: pending_lines_LF split: sum.splits)

section \<open>Reading back what the writer wrote\<close>

lemma quoted_body:
  assumes "length fd + length f \<le> field_limit" and "rest \<noteq> []"
  shows "reader_from None \<lparr>state = IN_QUOTED_FIELD, rfields = fs, field = fd\<rparr>
           (pending_lines (join_append_data f @ rest))
       = reader_from None \<lparr>state = IN_QUOTED_FIELD, rfields = fs, field = fd @ f\<rparr>
           (pending_lines rest)"
  using assms(1)
proof (induction f arbitrary: fd)
  case Nil
  show ?case by simp
next
  case (Cons c f)
  have lim: "\<not> field_limit \<le> length fd"
    using Cons.prems by simp
  have ne: "join_append_data f @ rest \<noteq> []"
    using assms(2) by simp
  have IH: "reader_from None \<lparr>state = IN_QUOTED_FIELD, rfields = fs, field = fd @ [c]\<rparr>
           (pending_lines (join_append_data f @ rest))
       = reader_from None \<lparr>state = IN_QUOTED_FIELD, rfields = fs, field = fd @ c # f\<rparr>
           (pending_lines rest)"
    using Cons.IH [of "fd @ [c]"] Cons.prems by simp
  consider "c = quotechar" | "c = LF" | "c \<noteq> quotechar" "c \<noteq> LF"
    by blast
  then show ?case
  proof cases
    case 1
    then show ?thesis
      using IH by (simp add: reader_step parse_process_char_def parse_add_char_def lim)
  next
    case 2
    then show ?thesis
      using IH
      by (simp add: reader_step_LF parse_process_char_def parse_add_char_def lim
          pending_lines_nonempty [OF ne])
  next
    case 3
    then show ?thesis
      using IH by (simp add: reader_step parse_process_char_def parse_add_char_def lim)
  qed
qed

lemma plain_iff: "plain f \<longleftrightarrow> \<not> needs_quotes f"
  by (auto simp: plain_def needs_quotes_def)

lemma unquoted_body:
  assumes "length fd + length f \<le> field_limit" and "plain f"
  shows "reader_from None \<lparr>state = IN_FIELD, rfields = fs, field = fd\<rparr> (pending_lines (f @ rest))
       = reader_from None \<lparr>state = IN_FIELD, rfields = fs, field = fd @ f\<rparr> (pending_lines rest)"
  using assms
proof (induction f arbitrary: fd)
  case Nil
  show ?case by simp
next
  case (Cons c f)
  have lim: "\<not> field_limit \<le> length fd"
    using Cons.prems by simp
  have c: "c \<noteq> delimiter" "c \<noteq> quotechar" "c \<noteq> CR" "c \<noteq> LF" and f: "plain f"
    using Cons.prems(2) by (auto simp: plain_def)
  have "reader_from None \<lparr>state = IN_FIELD, rfields = fs, field = fd @ [c]\<rparr> (pending_lines (f @ rest))
       = reader_from None \<lparr>state = IN_FIELD, rfields = fs, field = fd @ c # f\<rparr> (pending_lines rest)"
    using Cons.IH [of "fd @ [c]"] Cons.prems(1) f by simp
  then show ?case
    using c by (simp add: reader_step parse_process_char_def parse_add_char_def lim)
qed

lemma field_then_delimiter:
  assumes "length f \<le> field_limit"
  shows "reader_from None \<lparr>state = START_FIELD, rfields = fs, field = []\<rparr>
           (pending_lines (join_append f q @ delimiter # rest))
       = reader_from None \<lparr>state = START_FIELD, rfields = fs @ [f], field = []\<rparr>
           (pending_lines rest)"
proof (cases "q \<or> needs_quotes f")
  case True
  have "reader_from None \<lparr>state = IN_QUOTED_FIELD, rfields = fs, field = []\<rparr>
           (pending_lines (join_append_data f @ quotechar # delimiter # rest))
       = reader_from None \<lparr>state = IN_QUOTED_FIELD, rfields = fs, field = [] @ f\<rparr>
           (pending_lines (quotechar # delimiter # rest))"
    using assms by (intro quoted_body) simp_all
  then show ?thesis
    using True
    by (simp add: join_append_def reader_step parse_process_char_def start_field_def
        parse_save_field_def)
next
  case False
  then have pl: "plain f" and unq: "join_append f q = f"
    by (simp_all add: plain_iff join_append_def)
  show ?thesis
  proof (cases f)
    case Nil
    then show ?thesis
      using unq by (simp add: reader_step parse_process_char_def start_field_def parse_save_field_def)
  next
    case (Cons c f')
    have c: "c \<noteq> delimiter" "c \<noteq> quotechar" "c \<noteq> CR" "c \<noteq> LF" and pf: "plain f'"
      using pl Cons by (auto simp: plain_def)
    have lim: "\<not> field_limit \<le> 0"
      using assms Cons by simp
    have "reader_from None \<lparr>state = IN_FIELD, rfields = fs, field = [c]\<rparr>
           (pending_lines (f' @ delimiter # rest))
       = reader_from None \<lparr>state = IN_FIELD, rfields = fs, field = [c] @ f'\<rparr>
           (pending_lines (delimiter # rest))"
      using assms Cons pf by (intro unquoted_body) simp_all
    then show ?thesis
      using c lim
      by (simp add: unq [unfolded Cons] Cons reader_step parse_process_char_def start_field_def
          parse_add_char_def parse_save_field_def)
  qed
qed

lemma field_then_LF:
  assumes "length f \<le> field_limit"
  shows "reader_from None \<lparr>state = START_FIELD, rfields = fs, field = []\<rparr>
           (pending_lines (join_append f q @ LF # rest))
       = (case reader_from None parse_reset (split_lines rest) of
            (rows, e) \<Rightarrow> ((fs @ [f]) # rows, e))"
proof (cases "q \<or> needs_quotes f")
  case True
  have "reader_from None \<lparr>state = IN_QUOTED_FIELD, rfields = fs, field = []\<rparr>
           (pending_lines (join_append_data f @ quotechar # LF # rest))
       = reader_from None \<lparr>state = IN_QUOTED_FIELD, rfields = fs, field = [] @ f\<rparr>
           (pending_lines (quotechar # LF # rest))"
    using assms by (intro quoted_body) simp_all
  then show ?thesis
    using True
    by (simp add: join_append_def reader_step reader_step_LF parse_process_char_def
        start_field_def parse_save_field_def)
next
  case False
  then have pl: "plain f" and unq: "join_append f q = f"
    by (simp_all add: plain_iff join_append_def)
  show ?thesis
  proof (cases f)
    case Nil
    then show ?thesis
      using unq
      by (simp add: reader_step_LF parse_process_char_def start_field_def parse_save_field_def)
  next
    case (Cons c f')
    have c: "c \<noteq> delimiter" "c \<noteq> quotechar" "c \<noteq> CR" "c \<noteq> LF" and pf: "plain f'"
      using pl Cons by (auto simp: plain_def)
    have lim: "\<not> field_limit \<le> 0"
      using assms Cons by simp
    have "reader_from None \<lparr>state = IN_FIELD, rfields = fs, field = [c]\<rparr>
           (pending_lines (f' @ LF # rest))
       = reader_from None \<lparr>state = IN_FIELD, rfields = fs, field = [c] @ f'\<rparr>
           (pending_lines (LF # rest))"
      using assms Cons pf by (intro unquoted_body) simp_all
    then show ?thesis
      using c lim
      by (simp add: unq [unfolded Cons] Cons reader_step reader_step_LF parse_process_char_def start_field_def
          parse_add_char_def parse_save_field_def)
  qed
qed

lemma record_from_start_field:
  assumes "\<forall>f \<in> set row. length f \<le> field_limit" and "row \<noteq> []"
  shows "reader_from None \<lparr>state = START_FIELD, rfields = fs, field = []\<rparr>
           (pending_lines (join_fields row @ LF # rest))
       = (case reader_from None parse_reset (split_lines rest) of
            (rows, e) \<Rightarrow> ((fs @ row) # rows, e))"
  using assms
proof (induction row arbitrary: fs rule: join_fields.induct)
  case 1
  then show ?case by simp
next
  case (2 f)
  then show ?case
    using field_then_LF [of f fs False rest] by simp
next
  case (3 f g gs)
  have "reader_from None \<lparr>state = START_FIELD, rfields = fs, field = []\<rparr>
           (pending_lines (join_append f False @ delimiter # (join_fields (g # gs) @ LF # rest)))
       = reader_from None \<lparr>state = START_FIELD, rfields = fs @ [f], field = []\<rparr>
           (pending_lines (join_fields (g # gs) @ LF # rest))"
    using "3.prems"(1) by (intro field_then_delimiter) simp
  moreover have "reader_from None \<lparr>state = START_FIELD, rfields = fs @ [f], field = []\<rparr>
           (pending_lines (join_fields (g # gs) @ LF # rest))
       = (case reader_from None parse_reset (split_lines rest) of
            (rows, e) \<Rightarrow> (((fs @ [f]) @ g # gs) # rows, e))"
    using "3.prems"(1) by (intro "3.IH") simp_all
  ultimately show ?case by simp
qed

lemma join_fields_empty: "join_fields row = [] \<Longrightarrow> row = [] \<or> row = [[]]"
  by (cases row rule: join_fields.cases) (auto simp: join_append_def split: if_splits)

lemma hd_join_append:
  "hd (join_append f q @ delimiter # rest) \<noteq> LF \<and> hd (join_append f q @ delimiter # rest) \<noteq> CR"
  by (cases f) (auto simp: join_append_def needs_quotes_def)

lemma hd_join_fields:
  "join_fields row \<noteq> [] \<Longrightarrow> hd (join_fields row) \<noteq> LF \<and> hd (join_fields row) \<noteq> CR"
proof (cases row rule: join_fields.cases)
  case 1
  then show "join_fields row \<noteq> [] \<Longrightarrow> ?thesis" by simp
next
  case (2 f)
  then show "join_fields row \<noteq> [] \<Longrightarrow> ?thesis"
    by (cases f) (auto simp: join_append_def needs_quotes_def)
next
  case (3 f g gs)
  then show ?thesis using hd_join_append [of f False "join_fields (g # gs)"] by simp
qed

lemma start_record_as_start_field:
  assumes "c \<noteq> LF" and "c \<noteq> CR"
  shows "reader_from None parse_reset (pending_lines (c # cs))
       = reader_from None \<lparr>state = START_FIELD, rfields = [], field = []\<rparr> (pending_lines (c # cs))"
  using assms by (simp add: reader_step parse_process_char_def parse_reset_def)

lemma writerow_body:
  "writerow row = record_text row @ [CR, LF]"
proof (cases "row \<noteq> [] \<and> join_fields row = []")
  case True
  then have "row = [[]]" using join_fields_empty by blast
  then show ?thesis by (simp add: writerow_def join_append_def record_text_def)
next
  case False
  then show ?thesis by (auto simp: writerow_def join_append_def needs_quotes_def record_text_def)
qed

lemma record_read_back:
  assumes "\<forall>f \<in> set row. length f \<le> field_limit"
  shows "reader_from None parse_reset
           (split_lines (record_text row @ LF # rest))
       = (case reader_from None parse_reset (split_lines rest) of (rows, e) \<Rightarrow> (row # rows, e))"
proof -
  consider "row = []" | "row = [[]]" | "row \<noteq> []" "row \<noteq> [[]]" by blast
  then show ?thesis
  proof cases
    case 1
    have "reader_from None parse_reset (pending_lines (LF # rest))
       = (case reader_from None parse_reset (split_lines rest) of (rows, e) \<Rightarrow> ([] # rows, e))"
      by (simp add: reader_step_LF parse_process_char_def parse_reset_def)
    then show ?thesis using 1 by (simp add: pending_lines_def record_text_def)
  next
    case 2
    have "reader_from None parse_reset (pending_lines (quotechar # quotechar # LF # rest))
       = (case reader_from None parse_reset (split_lines rest) of (rows, e) \<Rightarrow> ([[]] # rows, e))"
      by (simp add: reader_step reader_step_LF parse_process_char_def start_field_def
          parse_save_field_def parse_reset_def)
    then show ?thesis using 2 by (simp add: pending_lines_def record_text_def)
  next
    case 3
    then have ne: "join_fields row \<noteq> []" using join_fields_empty by blast
    then obtain c cs where cs: "join_fields row = c # cs" by (cases "join_fields row") auto
    with hd_join_fields [OF ne] have c: "c \<noteq> LF" "c \<noteq> CR" by simp_all
    have "reader_from None parse_reset (pending_lines (c # cs @ LF # rest))
       = reader_from None \<lparr>state = START_FIELD, rfields = [], field = []\<rparr>
           (pending_lines (c # cs @ LF # rest))"
      using c by (rule start_record_as_start_field)
    also have "\<dots> = (case reader_from None parse_reset (split_lines rest) of
            (rows, e) \<Rightarrow> (([] @ row) # rows, e))"
      using record_from_start_field [OF assms 3(1), of "[]" rest] cs by simp
    finally show ?thesis using 3 cs by (simp add: pending_lines_def record_text_def)
  qed
qed

subsection \<open>Universal newlines on the written text\<close>

lemma universal_newlines_Cons:
  "c \<noteq> CR \<Longrightarrow> universal_newlines (c # cs) = c # universal_newlines cs"
  by (cases cs) simp_all

lemma universal_newlines_CRLF:
  "CR \<notin> set a \<Longrightarrow> universal_newlines (a @ CR # LF # b) = a @ LF # universal_newlines b"
  by (induction a) (simp_all add: universal_newlines_Cons)

lemma universal_newlines_no_CR:
  "CR \<notin> set a \<Longrightarrow> universal_newlines a = a"
  by (induction a) (simp_all add: universal_newlines_Cons)

lemma set_join_append_data: "set (join_append_data f) \<subseteq> set f"
  by (induction f) auto

lemma set_join_append: "set (join_append f q) \<subseteq> insert quotechar (set f)"
  using set_join_append_data [of f] by (auto simp: join_append_def)

lemma set_join_fields: "set (join_fields row) \<subseteq> {quotechar, delimiter} \<union> \<Union> (set ` set row)"
proof (induction row rule: join_fields.induct)
  case 1
  show ?case by simp
next
  case (2 f)
  show ?case using set_join_append [of f False] by auto
next
  case (3 f g gs)
  then show ?case using set_join_append [of f False] by auto
qed

lemma universal_newlines_written:
  assumes "\<forall>row \<in> set rows. \<forall>f \<in> set row. CR \<notin> set f"
  shows "universal_newlines (concat (map writerow rows)) =
     concat (map (\<lambda>row. record_text row @ [LF]) rows)"
  using assms
proof (induction rows)
  case Nil
  show ?case by simp
next
  case (Cons row rows)
  have "CR \<notin> set (join_fields row)"
    using set_join_fields [of row] Cons.prems by auto
  then have "CR \<notin> set (record_text row)" by (simp add: record_text_def)
  then have "universal_newlines (record_text row @ CR # LF # concat (map writerow rows))
      = record_text row @ LF # universal_newlines (concat (map writerow rows))"
    by (rule universal_newlines_CRLF)
  then show ?case
    using Cons by (simp add: writerow_body [of row])
qed

text \<open>
  Reading back: the reader, on the lines of a file that holds what the writer wrote for
  the rows, yields these rows and raises nothing, when no field holds a CR (which reading
  would turn into LF) and no field is longer than the field limit.
\<close>

lemma read_back:
  assumes "\<forall>row \<in> set rows. \<forall>f \<in> set row. CR \<notin> set f \<and> length f \<le> field_limit"
  shows "csv_reader (file_lines (concat (map writerow rows))) None = (rows, None)"
proof -
  have "reader_from None parse_reset
          (split_lines (concat (map (\<lambda>row. record_text row @ [LF]) rows))) = (rows, None)"
    using assms
  proof (induction rows)
    case Nil
    show ?case by (simp add: parse_reset_def)
  next
    case (Cons row rows)
    have "\<forall>f \<in> set row. length f \<le> field_limit"
      using Cons.prems by simp
    from record_read_back [OF this] Cons show ?case
      by simp
  qed
  then show ?thesis
    using assms by (simp add: csv_reader_def file_lines_def universal_newlines_written)
qed

section \<open>What the reader yields and when it raises\<close>

lemma universal_newlines_CR: "CR \<notin> set (universal_newlines t)"
  by (induction t rule: universal_newlines.induct) auto

lemma length_universal_newlines: "length (universal_newlines t) \<le> length t"
  by (induction t rule: universal_newlines.induct) auto

lemma set_split_lines: "l \<in> set (split_lines t) \<Longrightarrow> set l \<subseteq> set t"
proof (induction t arbitrary: l)
  case Nil
  then show ?case by simp
next
  case (Cons c cs)
  show ?case
  proof (cases "c = LF")
    case True
    with Cons show ?thesis by auto
  next
    case False
    show ?thesis
    proof (cases "split_lines cs")
      case Nil
      with False Cons.prems show ?thesis by simp
    next
      case (Cons l' ls)
      with False Cons.prems Cons.IH [of l'] Cons.IH [of l] show ?thesis by auto
    qed
  qed
qed

lemma reader_ok_step:
  assumes "reader_ok r" and "c \<noteq> Some CR" and "parse_process_char r c = Inr r'"
  shows "reader_ok r'"
proof (cases c)
  case None
  with assms show ?thesis
    by (cases "state r")
       (auto simp: parse_process_char_def start_field_def parse_save_field_def reader_ok_def
          field_ok_def)
next
  case (Some ch)
  with assms show ?thesis
    by (cases "state r")
       (auto simp: parse_process_char_def start_field_def parse_save_field_def parse_add_char_def
          reader_ok_def field_ok_def split: if_splits sum.splits)
qed

lemma reader_ok_line:
  "reader_ok r \<Longrightarrow> CR \<notin> set l \<Longrightarrow> parse_line r l = Inr r' \<Longrightarrow> reader_ok r'"
proof (induction l arbitrary: r)
  case Nil
  then show ?case using reader_ok_step [of r None r'] by simp
next
  case (Cons c cs)
  from Cons.prems(3) obtain r1 where r1: "parse_process_char r (Some c) = Inr r1"
    and rest: "parse_line r1 cs = Inr r'"
    by (auto split: sum.splits)
  have "reader_ok r1"
    using reader_ok_step [OF Cons.prems(1) _ r1] Cons.prems(2) by simp
  from Cons.IH [OF this _ rest] Cons.prems(2) show ?case by simp
qed

lemma reader_from_fields_ok:
  "reader_ok r \<Longrightarrow> \<forall>l \<in> set ls. CR \<notin> set l \<Longrightarrow>
     \<forall>row \<in> set (fst (reader_from src r ls)). \<forall>f \<in> set row. field_ok f"
proof (induction ls arbitrary: r)
  case Nil
  then show ?case by (auto simp: reader_ok_def parse_save_field_def split: option.splits)
next
  case (Cons l ls)
  show ?case
  proof (cases "parse_line r l")
    case (Inl e)
    then show ?thesis by simp
  next
    case (Inr r')
    have ok: "reader_ok r'"
      using reader_ok_line [OF Cons.prems(1) _ Inr] Cons.prems(2) by simp
    have reset: "reader_ok parse_reset"
      by (simp add: reader_ok_def parse_reset_def field_ok_def)
    show ?thesis
    proof (cases "state r' = START_RECORD")
      case True
      then show ?thesis
        using Inr ok Cons.IH [OF reset] Cons.prems(2)
        by (cases "reader_from src parse_reset ls") (auto simp: reader_ok_def)
    next
      case False
      then show ?thesis
        using Inr Cons.IH [OF ok] Cons.prems(2) by simp
    qed
  qed
qed

lemma csv_reader_fields_ok:
  "row \<in> set (fst (csv_reader (file_lines t) None)) \<Longrightarrow> f \<in> set row \<Longrightarrow> field_ok f"
proof -
  have "\<forall>l \<in> set (file_lines t). CR \<notin> set l"
    using set_split_lines [of _ "universal_newlines t"] universal_newlines_CR [of t]
    by (auto simp: file_lines_def)
  moreover have "reader_ok parse_reset"
    by (simp add: reader_ok_def parse_reset_def field_ok_def)
  ultimately show "row \<in> set (fst (csv_reader (file_lines t) None)) \<Longrightarrow> f \<in> set row \<Longrightarrow> field_ok f"
    using reader_from_fields_ok [of parse_reset "file_lines t" None]
    by (auto simp: csv_reader_def)
qed

lemma step_char_bound:
  assumes "state r \<noteq> EAT_CRNL" and "c \<noteq> LF" and "c \<noteq> CR"
  shows "case parse_process_char r (Some c) of
           Inl e \<Rightarrow> e = csv_Error Field_larger_than_field_limit \<and> field_limit \<le> length (field r)
         | Inr r' \<Rightarrow> state r' \<noteq> EAT_CRNL \<and> length (field r') \<le> length (field r) + 1"
  using assms
  by (cases "state r")
     (auto simp: parse_process_char_def start_field_def parse_save_field_def parse_add_char_def
        split: sum.splits)

lemma step_LF_bound:
  assumes "state r \<noteq> EAT_CRNL"
  shows "case parse_process_char r (Some LF) of
           Inl e \<Rightarrow> e = csv_Error Field_larger_than_field_limit \<and> field_limit \<le> length (field r)
         | Inr r1 \<Rightarrow>
             (\<exists>r2. parse_process_char r1 None = Inr r2 \<and> state r2 \<noteq> EAT_CRNL \<and>
                length (field r2) \<le> length (field r) + 1)"
  using assms
  by (cases "state r")
     (auto simp: parse_process_char_def start_field_def parse_save_field_def parse_add_char_def
        split: sum.splits)

lemma step_EOL_total: "\<exists>r'. parse_process_char r None = Inr r'"
  by (cases "state r") (auto simp: parse_process_char_def start_field_def)

lemma reader_error_bound:
  assumes "state r \<noteq> EAT_CRNL" and "CR \<notin> set u"
    and "snd (reader_from src r (pending_lines u)) = Some e"
  shows "src = Some e \<or>
     e = csv_Error Field_larger_than_field_limit \<and> field_limit < length (field r) + length u"
  using assms
proof (induction u arbitrary: r)
  case Nil
  obtain r' where "parse_process_char r None = Inr r'"
    using step_EOL_total by blast
  with Nil.prems(3) show ?case
    by (cases src) (auto simp: pending_lines_def split: if_splits)
next
  case (Cons c u)
  have cr: "c \<noteq> CR" "CR \<notin> set u"
    using Cons.prems(2) by auto
  have from_lines: "src = Some e \<or>
      e = csv_Error Field_larger_than_field_limit \<and> field_limit < length (field r') + length u"
    if "state r' \<noteq> EAT_CRNL" and "snd (reader_from src r' (split_lines u)) = Some e" for r'
  proof (cases "u = []")
    case True
    with that(2) show ?thesis by (cases src) (auto split: if_splits)
  next
    case False
    with that Cons.IH [OF that(1) cr(2)] show ?thesis
      by (simp add: pending_lines_nonempty)
  qed
  show ?case
  proof (cases "c = LF")
    case False
    show ?thesis
    proof (cases "parse_process_char r (Some c)")
      case (Inl x)
      with step_char_bound [OF Cons.prems(1) False cr(1)] Cons.prems(3) show ?thesis
        by (simp add: reader_step [OF False])
    next
      case (Inr r')
      with step_char_bound [OF Cons.prems(1) False cr(1)]
      have st: "state r' \<noteq> EAT_CRNL" and len: "length (field r') \<le> length (field r) + 1"
        by simp_all
      have "snd (reader_from src r' (pending_lines u)) = Some e"
        using Cons.prems(3) Inr by (simp add: reader_step [OF False])
      from Cons.IH [OF st cr(2) this] len show ?thesis by auto
    qed
  next
    case True
    show ?thesis
    proof (cases "parse_process_char r (Some LF)")
      case (Inl x)
      with step_LF_bound [OF Cons.prems(1)] Cons.prems(3) True show ?thesis
        by (simp add: reader_step_LF)
    next
      case (Inr r1)
      with step_LF_bound [OF Cons.prems(1)]
      obtain r2 where r2: "parse_process_char r1 None = Inr r2"
        and st: "state r2 \<noteq> EAT_CRNL" and len: "length (field r2) \<le> length (field r) + 1"
        by auto
      show ?thesis
      proof (cases "state r2 = START_RECORD")
        case start: True
        have "snd (reader_from src parse_reset (split_lines u)) = Some e"
          using Cons.prems(3) True Inr r2 start
          by (cases "reader_from src parse_reset (split_lines u)") (simp add: reader_step_LF)
        from from_lines [OF _ this] show ?thesis
          by (auto simp: parse_reset_def)
      next
        case other: False
        have "snd (reader_from src r2 (split_lines u)) = Some e"
          using Cons.prems(3) True Inr r2 other by (simp add: reader_step_LF)
        from from_lines [OF st this] len show ?thesis by auto
      qed
    qed
  qed
qed

lemma reader_error_of_text:
  assumes "CR \<notin> set u" and "snd (csv_reader (split_lines u) src) = Some e"
  shows "src = Some e \<or> e = csv_Error Field_larger_than_field_limit \<and> field_limit < length u"
proof (cases "u = []")
  case True
  with assms(2) show ?thesis
    by (cases src) (auto simp: csv_reader_def parse_reset_def split: if_splits)
next
  case False
  have "snd (reader_from src parse_reset (pending_lines u)) = Some e"
    using assms(2) False by (simp add: csv_reader_def pending_lines_def)
  from reader_error_bound [OF _ assms(1) this] show ?thesis
    by (simp add: parse_reset_def)
qed

text \<open>
  The reader raises only for a field beyond the field limit, and so only on a text longer
  than the limit. Nothing else in the text makes it raise: not a quote that is never
  closed, nor text after a closing quote.
\<close>

lemma csv_reader_error:
  assumes "snd (csv_reader (file_lines t) None) = Some e"
  shows "e = csv_Error Field_larger_than_field_limit \<and> field_limit < length t"
  using reader_error_of_text [OF universal_newlines_CR, of t None e] assms
    length_universal_newlines [of t]
  by (simp add: file_lines_def)

lemma complete_text_CR: "CR \<notin> set u \<Longrightarrow> CR \<notin> set (complete_text u)"
  by (auto simp: complete_text_def dest: set_dropWhileD)

lemma length_complete_text: "length (complete_text u) \<le> length u"
  using length_dropWhile_le [of "\<lambda>c. c \<noteq> LF" "rev u"] by (simp add: complete_text_def)

text \<open>
  On a file that does not decode, the reader ends with UnicodeDecodeError, or before
  that with the exception of a field beyond the field limit.
\<close>

lemma csv_reader_error_undecodable:
  assumes "snd (csv_reader (complete_lines t) (Some x)) = Some e"
  shows "e = x \<or> e = csv_Error Field_larger_than_field_limit \<and> field_limit < length t"
proof -
  have "CR \<notin> set (complete_text (universal_newlines t))"
    using universal_newlines_CR by (rule complete_text_CR)
  from reader_error_of_text [OF this assms [unfolded complete_lines_def]]
  show ?thesis
    using length_complete_text [of "universal_newlines t"] length_universal_newlines [of t]
    by auto
qed

section \<open>Errors of loading\<close>

lemma process_document_error_cases:
  assumes "snd (process_document rows pending) = Some e"
  shows "e = StopIteration \<or> e = IndexError \<or> pending = Some e"
proof (cases rows)
  case Nil
  with assms show ?thesis by (auto simp: process_document_def split: option.splits)
next
  case (Cons header data)
  with assms show ?thesis by (auto simp: process_document_error split: if_splits)
qed

lemma open_r_Inl:
  "open_r p w = Inl e \<longleftrightarrow> e = OSError p \<and> (files w p = None \<or> \<not> may_read w p)"
  by (auto simp: open_r_def split: option.splits)

lemma open_w_Inl: "open_w p w = Inl e \<longleftrightarrow> e = OSError p \<and> \<not> may_write w p"
  by (auto simp: open_w_def)

lemma os_replace_Inl: "os_replace src dst w = Inl e \<Longrightarrow> e = OSError_replace src dst"
  by (auto simp: os_replace_def split: option.splits if_splits)

text \<open>A field of one character more than the field limit makes the reader raise.\<close>

lemma long_field_raises:
  "csv_reader (file_lines (replicate (Suc field_limit) 97)) None =
     ([], Some (csv_Error Field_larger_than_field_limit))"
proof -
  have pos: "0 < field_limit" by (simp add: field_limit_def)
  then obtain n where n: "field_limit = Suc n" by (cases field_limit) auto
  have pl: "plain (replicate n 97)" by (simp add: plain_def)
  have body: "reader_from None \<lparr>state = IN_FIELD, rfields = [], field = [97]\<rparr>
        (pending_lines (replicate n 97 @ [97]))
      = reader_from None \<lparr>state = IN_FIELD, rfields = [], field = [97] @ replicate n 97\<rparr>
        (pending_lines [97])"
    using pl n by (intro unquoted_body) simp_all
  have "reader_from None parse_reset (pending_lines (97 # replicate n 97 @ [97]))
      = ([], Some (csv_Error Field_larger_than_field_limit))"
    using body n
    by (simp add: reader_step parse_process_char_def start_field_def parse_add_char_def
        parse_reset_def)
  moreover have "replicate (Suc field_limit) 97 = 97 # replicate n 97 @ [97::nat]"
    by (simp add: n replicate_append_same)
  moreover have "universal_newlines (replicate (Suc field_limit) 97) = replicate (Suc field_limit) 97"
    by (intro universal_newlines_no_CR) simp
  ultimately show ?thesis
    by (simp add: csv_reader_def file_lines_def pending_lines_def)
qed

lemma undecodable_run:
  assumes "open_r input_file w = Inr (Undecodable t)" and "may_write w output_file"
  shows "\<exists>p. snd (csv_reader (complete_lines t) (Some UnicodeDecodeError)) = Some p \<and>
     (p = UnicodeDecodeError \<or>
      p = csv_Error Field_larger_than_field_limit \<and> field_limit < length t) \<and>
     fst (main w) =
       Some (if \<exists>r \<in> set (tl (fst (csv_reader (complete_lines t) (Some UnicodeDecodeError)))).
                  length r < 2
             then IndexError else p)"
proof -
  let ?R = "csv_reader (complete_lines t) (Some UnicodeDecodeError)"
  obtain p where p: "snd ?R = Some p"
    using reader_from_raising [of UnicodeDecodeError parse_reset "complete_lines t"]
    by (auto simp: csv_reader_def)
  from csv_reader_error_undecodable [OF this]
  have kind: "p = UnicodeDecodeError \<or>
      p = csv_Error Field_larger_than_field_limit \<and> field_limit < length t" .
  have "snd (process_document (fst ?R) (snd ?R)) =
      Some (if \<exists>r \<in> set (tl (fst ?R)). length r < 2 then IndexError else p)"
  proof (cases "fst ?R")
    case Nil
    then show ?thesis by (simp add: process_document_def p)
  next
    case (Cons header data)
    then show ?thesis by (simp add: process_document_error p)
  qed
  then have "fst (main w) =
      Some (if \<exists>r \<in> set (tl (fst ?R)). length r < 2 then IndexError else p)"
    using main_error_of_document [OF assms(1) assms(2)] by simp
  with p kind show ?thesis by blast
qed




section \<open>Successful runs\<close>

lemma last_writerows_flags:
  "may_read (last (w # writerows w out)) = may_read w \<and>
   may_write (last (w # writerows w out)) = may_write w \<and>
   may_replace (last (w # writerows w out)) = may_replace w"
proof (cases "writerows w out = []")
  case True
  then show ?thesis by simp
next
  case False
  then have "last (w # writerows w out) \<in> set (writerows w out)" by simp
  from writerows_flags [OF this] show ?thesis by simp
qed

lemma open_w_flags:
  "open_w p w = Inr w1 \<Longrightarrow>
     may_read w1 = may_read w \<and> may_write w1 = may_write w \<and> may_replace w1 = may_replace w
     \<and> may_write w p"
  by (auto simp: open_w_def split: if_splits)

lemma os_replace_flags:
  "os_replace src dst w = Inr w3 \<Longrightarrow>
     may_read w3 = may_read w \<and> may_write w3 = may_write w \<and> may_replace w3 = may_replace w
     \<and> may_replace w"
  by (auto simp: os_replace_def split: option.splits if_splits)

lemma open_r_Inr: "open_r p w = Inr c \<longleftrightarrow> files w p = Some c \<and> may_read w p"
  by (auto simp: open_r_def split: option.splits)

text \<open>
  A run succeeds exactly when the input can be read and decoded, the output can be
  created, the transform raises nothing and the replacement is permitted; the final path
  then holds what the writer wrote for the rows of the transform, and the permissions are
  what they were.
\<close>

lemma main_success_iff:
  "fst (main w) = None \<longleftrightarrow>
     (\<exists>t. files w input_file = Some (Text t) \<and> may_read w input_file \<and> may_write w output_file \<and>
        may_replace w \<and>
        snd (process_document (fst (csv_reader (file_lines t) None)) (snd (csv_reader (file_lines t) None))) = None)"
proof
  assume "fst (main w) = None"
  then obtain tr where m: "main w = (None, tr)" by (cases "main w") simp
  from m show "\<exists>t. files w input_file = Some (Text t) \<and> may_read w input_file \<and>
        may_write w output_file \<and> may_replace w \<and>
        snd (process_document (fst (csv_reader (file_lines t) None)) (snd (csv_reader (file_lines t) None))) = None"
  proof (cases rule: main_cases)
    case (replaced t w1 rows pending out w3)
    have "may_replace (last (w1 # writerows w1 out))"
      using os_replace_flags [OF replaced(5)] by simp
    then have "may_replace w"
      using last_writerows_flags [of w1 out] open_w_flags [OF replaced(2)] by simp
    then show ?thesis
      using replaced(1,3,4) open_w_flags [OF replaced(2)] by (auto simp: open_r_Inr)
  qed simp_all
next
  assume "\<exists>t. files w input_file = Some (Text t) \<and> may_read w input_file \<and>
        may_write w output_file \<and> may_replace w \<and>
        snd (process_document (fst (csv_reader (file_lines t) None)) (snd (csv_reader (file_lines t) None))) = None"
  then obtain t where t: "files w input_file = Some (Text t)" "may_read w input_file"
    "may_write w output_file" "may_replace w"
    "snd (process_document (fst (csv_reader (file_lines t) None)) (snd (csv_reader (file_lines t) None))) = None"
    by blast
  obtain res tr where m: "main w = (res, tr)" by (cases "main w")
  from m have "res = None"
  proof (cases rule: main_cases)
    case (no_input e)
    with t show ?thesis by (simp add: open_r_def)
  next
    case (no_output c e)
    with t show ?thesis by (simp add: open_w_def)
  next
    case (failed c w1 rows pending out e)
    from failed(1) t(1,2) have "c = Text t" by (simp add: open_r_def)
    with failed(3,4) t(5) show ?thesis by simp
  next
    case (not_replaced t' w1 rows pending out e)
    have "files (last (w1 # writerows w1 out)) output_file
        = Some (Text ([] @ concat (map writerow out)))"
      using open_w_files [OF not_replaced(2)] by (intro writerows_output) simp
    moreover have "may_replace (last (w1 # writerows w1 out))"
      using last_writerows_flags [of w1 out] open_w_flags [OF not_replaced(2)] t(4) by simp
    ultimately show ?thesis
      using not_replaced(5) by (simp add: os_replace_def)
  next
    case (replaced t' w1 rows pending out w3)
    then show ?thesis by simp
  qed
  with m show "fst (main w) = None" by simp
qed

lemma main_success_result:
  assumes "main w = (None, tr)"
  shows "\<exists>t. files w input_file = Some (Text t) \<and>
     snd (process_document (fst (csv_reader (file_lines t) None)) (snd (csv_reader (file_lines t) None))) = None \<and>
     files (final_world w) input_file =
       Some (Text (concat (map writerow
         (fst (process_document (fst (csv_reader (file_lines t) None)) (snd (csv_reader (file_lines t) None)))))))
     \<and> may_read (final_world w) = may_read w \<and> may_write (final_world w) = may_write w
     \<and> may_replace (final_world w) = may_replace w"
  using assms
proof (cases rule: main_cases)
  case (replaced t w1 rows pending out w3)
  let ?w2 = "last (w1 # writerows w1 out)"
  let ?w4 = "print ''Updated export_tags.csv with Japanese descriptions.'' w3"
  have fw: "final_world w = ?w4"
    using assms replaced(7) by (simp add: final_world_def)
  have "files ?w2 output_file = Some (Text ([] @ concat (map writerow out)))"
    using open_w_files [OF replaced(2)] by (intro writerows_output) simp
  then have content: "files ?w4 input_file = Some (Text (concat (map writerow out)))"
    using os_replace_files [OF replaced(5)] by (simp add: print_def)
  have flags: "may_read ?w4 = may_read w \<and> may_write ?w4 = may_write w \<and>
      may_replace ?w4 = may_replace w"
    using os_replace_flags [OF replaced(5)] last_writerows_flags [of w1 out]
      open_w_flags [OF replaced(2)]
    by (simp add: print_def)
  show ?thesis
    using replaced(1,3,4) content flags by (auto simp: fw open_r_Inr)
qed simp_all

section \<open>Fields of the output\<close>

lemma translations_dict_ok: "\<forall>kv \<in> set translations_dict. field_ok (snd kv)"
  by (simp add: translations_dict_def field_ok_def field_limit_def)

lemma dict_get_ok: "field_ok (dict_get translations_dict k [])"
proof (cases "map_of translations_dict k")
  case None
  then show ?thesis by (simp add: dict_get_def field_ok_def)
next
  case (Some v)
  then have "(k, v) \<in> set translations_dict" by (rule map_of_SomeD)
  with translations_dict_ok Some show ?thesis by (force simp: dict_get_def)
qed

lemma update_header_ok:
  "\<forall>f \<in> set header. field_ok f \<Longrightarrow> \<forall>f \<in> set (update_header header). field_ok f"
  by (auto simp: update_header_def field_ok_def ascii_def field_limit_def)

lemma update_row_ok:
  assumes "update_row r = Inr r'" and "\<forall>f \<in> set r. field_ok f"
  shows "\<forall>f \<in> set r'. field_ok f"
proof -
  have len: "2 \<le> length r" using assms(1) by (rule update_row_Inr(1))
  consider "length r = 2" | "3 \<le> length r" using len by linarith
  then show ?thesis
  proof cases
    case 1
    with assms show ?thesis by (auto simp: update_row_two dict_get_ok)
  next
    case 2
    with assms have "r' = r[2 := dict_get translations_dict (r ! 0) []]"
      by (simp add: update_row_long)
    then show ?thesis
      using assms(2) dict_get_ok set_update_subset_insert [of r 2] by fastforce
  qed
qed

lemma rows_loop_ok:
  "rows_loop rows = (out, e) \<Longrightarrow> \<forall>r \<in> set rows. \<forall>f \<in> set r. field_ok f \<Longrightarrow>
     \<forall>r \<in> set out. \<forall>f \<in> set r. field_ok f"
proof (induction rows arbitrary: out e)
  case Nil
  then show ?case by simp
next
  case (Cons r rs)
  show ?case
  proof (cases "update_row r")
    case (Inl x)
    with Cons.prems show ?thesis by simp
  next
    case (Inr r')
    obtain out' e' where rec: "rows_loop rs = (out', e')" by (cases "rows_loop rs")
    with Cons.prems(1) Inr have out: "out = r' # out'" by simp
    have "\<forall>f \<in> set r'. field_ok f"
      using update_row_ok [OF Inr] Cons.prems(2) by simp
    moreover have "\<forall>r \<in> set out'. \<forall>f \<in> set r. field_ok f"
      using Cons.IH [OF rec] Cons.prems(2) by simp
    ultimately show ?thesis by (simp add: out)
  qed
qed

lemma process_document_ok:
  assumes "process_document rows pending = (out, e)"
    and "\<forall>r \<in> set rows. \<forall>f \<in> set r. field_ok f"
  shows "\<forall>r \<in> set out. \<forall>f \<in> set r. field_ok f"
proof (cases rows)
  case Nil
  with assms show ?thesis by (simp add: process_document_def)
next
  case (Cons header data)
  from process_document_Cons [OF assms(1) [unfolded Cons]]
  obtain out' e' where loop: "rows_loop data = (out', e')"
    and out: "out = update_header header # out'"
    by blast
  show ?thesis
    using rows_loop_ok [OF loop] update_header_ok [of header] assms(2)
    by (simp add: out Cons)
qed

text \<open>
  The text that a run writes reads back as the rows that the transform wrote: the fields
  come from the reader, from the table and from the label, and none of them has a CR or
  goes beyond the field limit.
\<close>

lemma output_reads_back:
  assumes "process_document (fst (csv_reader (file_lines t) None)) (snd (csv_reader (file_lines t) None)) = (out, e)"
  shows "csv_reader (file_lines (concat (map writerow out))) None = (out, None)"
proof -
  have "\<forall>r \<in> set (fst (csv_reader (file_lines t) None)). \<forall>f \<in> set r. field_ok f"
    using csv_reader_fields_ok by blast
  from process_document_ok [OF assms this]
  have "\<forall>row \<in> set out. \<forall>f \<in> set row. CR \<notin> set f \<and> length f \<le> field_limit"
    by (simp add: field_ok_def)
  then show ?thesis by (rule read_back)
qed

section \<open>The dialect of the output\<close>

lemma join_append_data_doubles:
  "join_append_data f = concat (map (\<lambda>c. if c = 34 then [34, 34] else [c]) f)"
  by (induction f) simp_all

lemma join_append_excel: "join_append f False = excel_field f"
  by (simp add: join_append_def needs_quotes_def excel_field_def join_append_data_doubles)

lemma join_fields_excel:
  "r \<noteq> [] \<Longrightarrow>
     join_fields r = concat (map (\<lambda>f. excel_field f @ [44]) (butlast r)) @ excel_field (last r)"
  by (induction r rule: join_fields.induct) (simp_all add: join_append_excel)

text \<open>The writer writes every row in the record format of the default dialect.\<close>

lemma writerow_excel: "writerow r = excel_record r"
proof -
  consider "r = []" | "r = [[]]" | "r \<noteq> []" "r \<noteq> [[]]" by blast
  then show ?thesis
  proof cases
    case 1
    then show ?thesis by (simp add: writerow_def excel_record_def)
  next
    case 2
    then show ?thesis by (simp add: writerow_def excel_record_def join_append_def)
  next
    case 3
    then have "join_fields r \<noteq> []" using join_fields_empty by blast
    then have "writerow r = join_fields r @ [CR, LF]"
      by (simp add: writerow_def)
    also have "\<dots> = excel_record r"
      using 3 by (simp add: excel_record_def join_fields_excel)
    finally show ?thesis .
  qed
qed

text \<open>
  Claim C7, as the code has it. The writer writes every row in the record format of the
  default dialect of the csv module, whatever the input looked like: fields separated by
  commas, a field between double quotes (its double quotes doubled) exactly when it
  holds a comma, a double quote, CR or LF, and CR LF at the end of every row. The output
  of a successful run is the rows of the transform in this format, one after the other;
  no field of it holds a CR, so every CR of the output belongs to a line terminator; and
  the reader, on this text, yields the rows that were written.
\<close>

theorem output_dialect:
  assumes "main w = (None, tr)"
  shows "(\<forall>row. writerow row = excel_record row) \<and>
     (\<exists>t out.
        files w input_file = Some (Text t) \<and>
        process_document (fst (csv_reader (file_lines t) None)) (snd (csv_reader (file_lines t) None))
          = (out, None) \<and>
        files (final_world w) input_file = Some (Text (concat (map excel_record out))) \<and>
        (\<forall>row \<in> set out. \<forall>f \<in> set row. CR \<notin> set f) \<and>
        csv_reader (file_lines (concat (map excel_record out))) None = (out, None))"
proof -
  from main_success_result [OF assms]
  obtain t where t: "files w input_file = Some (Text t)"
    and ok: "snd (process_document (fst (csv_reader (file_lines t) None))
        (snd (csv_reader (file_lines t) None))) = None"
    and content: "files (final_world w) input_file =
       Some (Text (concat (map writerow
         (fst (process_document (fst (csv_reader (file_lines t) None))
            (snd (csv_reader (file_lines t) None)))))))"
    by blast
  obtain out where doc:
    "process_document (fst (csv_reader (file_lines t) None)) (snd (csv_reader (file_lines t) None))
       = (out, None)"
    using ok
    by (cases "process_document (fst (csv_reader (file_lines t) None))
        (snd (csv_reader (file_lines t) None))") simp
  have same: "map writerow out = map excel_record out"
    by (simp add: writerow_excel)
  have fields: "\<forall>row \<in> set out. \<forall>f \<in> set row. CR \<notin> set f"
    using process_document_ok [OF doc] csv_reader_fields_ok by (fastforce simp: field_ok_def)
  have reread: "csv_reader (file_lines (concat (map excel_record out))) None = (out, None)"
    using output_reads_back [OF doc] by (simp only: same)
  have "files (final_world w) input_file = Some (Text (concat (map excel_record out)))"
    using content doc by (simp add: same)
  with t doc fields reread show ?thesis
    using writerow_excel by blast
qed

theorem output_dialect_witness:
  "fst (main (example_world (ascii ''N,E'' @ LF # ascii ''\"a,b\",\"q\"\"r;s\"'' @ [LF]))) = None
   \<and> files (final_world (example_world (ascii ''N,E'' @ LF # ascii ''\"a,b\",\"q\"\"r;s\"'' @ [LF])))
        input_file
       = Some (Text (ascii ''N,E,DescriptionJa'' @ CR # LF #
                     ascii ''\"a,b\",\"q\"\"r;s\",'' @ [CR, LF]))
   \<and> csv_reader (file_lines (ascii ''N,E,DescriptionJa'' @ CR # LF #
                     ascii ''\"a,b\",\"q\"\"r;s\",'' @ [CR, LF])) None
       = ([[ascii ''N'', ascii ''E'', ascii ''DescriptionJa''],
           [ascii ''a,b'', ascii ''q\"r;s'', []]], None)
   \<and> writerow [ascii ''a;b'', ascii ''c''] = ascii ''a;b,c'' @ [CR, LF]"
proof -
  let ?t = "ascii ''N,E'' @ LF # ascii ''\"a,b\",\"q\"\"r;s\"'' @ [LF]"
  let ?d = "[[ascii ''N'', ascii ''E''], [ascii ''a,b'', ascii ''q\"r;s'']]"
  let ?o = "[[ascii ''N'', ascii ''E'', ascii ''DescriptionJa''],
           [ascii ''a,b'', ascii ''q\"r;s'', []]]"
  have rd: "csv_reader (file_lines ?t) None = (?d, None)"
    by (simp add: reader_eval ascii_def)
  have doc: "process_document ?d None = (?o, None)"
    by (simp add: rows_eval ascii_def)
  have wr: "concat (map excel_record ?o)
      = ascii ''N,E,DescriptionJa'' @ CR # LF # ascii ''\"a,b\",\"q\"\"r;s\",'' @ [CR, LF]"
    by (simp add: excel_record_def excel_field_def ascii_def)
  have first: "fst (main (example_world ?t)) = None"
    by (simp add: main_success_iff example_world_def rd doc)
  then have run: "main (example_world ?t) = (None, snd (main (example_world ?t)))"
    by (cases "main (example_world ?t)") simp
  note inst = output_dialect [OF run]
  from inst obtain t out where
    "files (example_world ?t) input_file = Some (Text t)"
    "process_document (fst (csv_reader (file_lines t) None)) (snd (csv_reader (file_lines t) None))
       = (out, None)"
    "files (final_world (example_world ?t)) input_file = Some (Text (concat (map excel_record out)))"
    "csv_reader (file_lines (concat (map excel_record out))) None = (out, None)"
    by blast
  moreover from this(1) have "t = ?t" by (simp add: example_world_def)
  ultimately have "files (final_world (example_world ?t)) input_file
      = Some (Text (concat (map excel_record ?o)))"
    and "csv_reader (file_lines (concat (map excel_record ?o))) None = (?o, None)"
    using rd doc by auto
  moreover have "writerow [ascii ''a;b'', ascii ''c''] = ascii ''a;b,c'' @ [CR, LF]"
    using inst by (simp add: excel_record_def excel_field_def ascii_def)
  ultimately show ?thesis
    unfolding wr using first by simp
qed

text \<open>
  The claim as stated fails on the line terminator: on an input of two lines that end
  with LF, whose document the transform leaves as it is, the output ends its lines with
  CR LF, and so differs from the input although no field has changed.
\<close>

theorem line_terminator_counterexample:
  "csv_reader (file_lines (ascii ''N,E,J'' @ LF # ascii ''t,x,'' @ [LF])) None
     = ([[ascii ''N'', ascii ''E'', ascii ''J''], [ascii ''t'', ascii ''x'', []]], None)
   \<and> process_document [[ascii ''N'', ascii ''E'', ascii ''J''], [ascii ''t'', ascii ''x'', []]] None
     = ([[ascii ''N'', ascii ''E'', ascii ''J''], [ascii ''t'', ascii ''x'', []]], None)
   \<and> fst (main (example_world (ascii ''N,E,J'' @ LF # ascii ''t,x,'' @ [LF]))) = None
   \<and> files (final_world (example_world (ascii ''N,E,J'' @ LF # ascii ''t,x,'' @ [LF]))) input_file
     = Some (Text (ascii ''N,E,J'' @ CR # LF # ascii ''t,x,'' @ [CR, LF]))
   \<and> ascii ''N,E,J'' @ CR # LF # ascii ''t,x,'' @ [CR, LF]
     \<noteq> ascii ''N,E,J'' @ LF # ascii ''t,x,'' @ [LF]"
proof -
  let ?t = "ascii ''N,E,J'' @ LF # ascii ''t,x,'' @ [LF]"
  let ?d = "[[ascii ''N'', ascii ''E'', ascii ''J''], [ascii ''t'', ascii ''x'', []]]"
  have rd: "csv_reader (file_lines ?t) None = (?d, None)"
    by (simp add: reader_eval ascii_def)
  have doc: "process_document ?d None = (?d, None)"
    by (simp add: rows_eval ascii_def)
  have wr: "writerow [ascii ''N'', ascii ''E'', ascii ''J''] = ascii ''N,E,J'' @ [CR, LF]"
    "writerow [ascii ''t'', ascii ''x'', []] = ascii ''t,x,'' @ [CR, LF]"
    by (simp_all add: writer_eval ascii_def)
  have "fst (main (example_world ?t)) = None"
    and "files (final_world (example_world ?t)) input_file
     = Some (Text (ascii ''N,E,J'' @ CR # LF # ascii ''t,x,'' @ [CR, LF]))"
    by (simp_all add: world_eval rd doc wr)
  moreover have "ascii ''N,E,J'' @ CR # LF # ascii ''t,x,'' @ [CR, LF] \<noteq> ?t"
    by (simp add: ascii_def)
  ultimately show ?thesis using rd doc by simp
qed

section \<open>Running the script twice\<close>

lemma update_row_idem:
  assumes "update_row r = Inr r'"
  shows "update_row r' = Inr r'"
proof -
  note facts = update_row_Inr [OF assms]
  have len: "3 \<le> length r'" using facts(2) by simp
  have "r' ! 0 = r ! 0" using facts(1) facts(4) [of 0] by (cases r) simp_all
  then have "dict_get translations_dict (r' ! 0) [] = r' ! 2"
    using facts(3) by simp
  then have "r'[2 := dict_get translations_dict (r' ! 0) []] = r'"
    by (simp only: list_update_id)
  then show ?thesis using update_row_long [OF len] by simp
qed

lemma rows_loop_idem:
  "rows_loop rows = (out, e) \<Longrightarrow> rows_loop out = (out, None)"
proof (induction rows arbitrary: out e)
  case Nil
  then show ?case by simp
next
  case (Cons r rs)
  show ?case
  proof (cases "update_row r")
    case (Inl x)
    with Cons.prems show ?thesis by simp
  next
    case (Inr r')
    obtain out' e' where rec: "rows_loop rs = (out', e')" by (cases "rows_loop rs")
    with Cons.prems Inr have out: "out = r' # out'" by simp
    show ?thesis
      using Cons.IH [OF rec] update_row_idem [OF Inr] by (simp add: out)
  qed
qed

lemma update_header_idem:
  "2 \<le> length header \<Longrightarrow> update_header (update_header header) = update_header header"
  by (simp add: update_header_def)

lemma process_document_idem:
  assumes "process_document (header # data) pending = (out, e)" and "2 \<le> length header"
  shows "process_document out None = (out, None)"
proof -
  from process_document_Cons [OF assms(1)]
  obtain out' e' where loop: "rows_loop data = (out', e')"
    and out: "out = update_header header # out'"
    by blast
  show ?thesis
    using rows_loop_idem [OF loop] update_header_idem [OF assms(2)]
    by (simp add: out process_document_def)
qed

text \<open>
  Claim C4, as the code has it. When a run succeeds on an input whose header has at
  least two fields, a second run on the file it left succeeds too and leaves a file with
  the same content, which is the same bytes: the second run reads back the rows that the
  first one wrote, finds a header of three fields or more and the same lookups, and
  writes the same text.
\<close>

theorem second_run_same_output:
  assumes "main w = (None, tr)" and "files w input_file = Some (Text t)"
    and "2 \<le> length (hd (fst (csv_reader (file_lines t) None)))"
  shows "fst (main (final_world w)) = None \<and>
     files (final_world (final_world w)) input_file = files (final_world w) input_file"
proof -
  let ?rows = "fst (csv_reader (file_lines t) None)"
  let ?pending = "snd (csv_reader (file_lines t) None)"
  let ?W = "final_world w"
  from main_success_result [OF assms(1)] assms(2)
  have ok: "snd (process_document ?rows ?pending) = None"
    and content: "files ?W input_file
        = Some (Text (concat (map writerow (fst (process_document ?rows ?pending)))))"
    and flags: "may_read ?W = may_read w" "may_write ?W = may_write w"
      "may_replace ?W = may_replace w"
    by auto
  obtain out where doc: "process_document ?rows ?pending = (out, None)"
    using ok by (cases "process_document ?rows ?pending") simp
  obtain header data where rows: "?rows = header # data"
    using doc process_document_Nil [of ?pending out None] by (cases ?rows) auto
  have hdr: "2 \<le> length header"
    using assms(3) rows by simp
  have perms: "may_read w input_file" "may_write w output_file" "may_replace w"
    using main_success_iff [of w] assms(1) by auto
  let ?T = "concat (map writerow out)"
  have W_file: "files ?W input_file = Some (Text ?T)"
    using content doc by simp
  have rd: "csv_reader (file_lines ?T) None = (out, None)"
    using doc by (rule output_reads_back)
  have again: "process_document out None = (out, None)"
    using doc [unfolded rows] hdr by (rule process_document_idem)
  have success: "fst (main ?W) = None"
    using W_file perms flags rd again by (simp add: main_success_iff)
  then obtain tr' where "main ?W = (None, tr')"
    by (cases "main ?W") simp
  from main_success_result [OF this] W_file
  have "files (final_world ?W) input_file = Some (Text ?T)"
    using rd again by auto
  with success W_file show ?thesis by simp
qed

theorem second_run_same_output_witness:
  "fst (main (example_world (ascii ''N,E'' @ LF # ascii ''t,x'' @ [LF]))) = None
   \<and> files (final_world (example_world (ascii ''N,E'' @ LF # ascii ''t,x'' @ [LF]))) input_file
       = Some (Text (ascii ''N,E,DescriptionJa'' @ CR # LF # ascii ''t,x,'' @ [CR, LF]))
   \<and> fst (main (final_world (example_world (ascii ''N,E'' @ LF # ascii ''t,x'' @ [LF])))) = None
   \<and> files (final_world (final_world (example_world (ascii ''N,E'' @ LF # ascii ''t,x'' @ [LF]))))
        input_file
       = Some (Text (ascii ''N,E,DescriptionJa'' @ CR # LF # ascii ''t,x,'' @ [CR, LF]))"
proof -
  let ?t = "ascii ''N,E'' @ LF # ascii ''t,x'' @ [LF]"
  let ?w = "example_world ?t"
  have rd: "csv_reader (file_lines ?t) None = ([[ascii ''N'', ascii ''E''], [ascii ''t'', ascii ''x'']], None)"
    by (simp add: reader_eval ascii_def)
  have doc: "process_document [[ascii ''N'', ascii ''E''], [ascii ''t'', ascii ''x'']] None
      = ([[ascii ''N'', ascii ''E'', ascii ''DescriptionJa''], [ascii ''t'', ascii ''x'', []]], None)"
    by (simp add: rows_eval ascii_def)
  have wr: "writerow [ascii ''N'', ascii ''E'', ascii ''DescriptionJa'']
        = ascii ''N,E,DescriptionJa'' @ [CR, LF]"
    "writerow [ascii ''t'', ascii ''x'', []] = ascii ''t,x,'' @ [CR, LF]"
    by (simp_all add: writer_eval ascii_def)
  have first: "fst (main ?w) = None"
    and out1: "files (final_world ?w) input_file
       = Some (Text (ascii ''N,E,DescriptionJa'' @ CR # LF # ascii ''t,x,'' @ [CR, LF]))"
    by (simp_all add: world_eval rd doc wr)
  have run: "main ?w = (None, snd (main ?w))"
    using first by (cases "main ?w") simp
  have inp: "files ?w input_file = Some (Text ?t)"
    by (simp add: example_world_def)
  have hdr: "2 \<le> length (hd (fst (csv_reader (file_lines ?t) None)))"
    by (simp add: rd)
  from second_run_same_output [OF run inp hdr] first out1 show ?thesis
    by simp
qed

text \<open>
  The claim as stated fails for a header of one field: the first run gives the header a
  second field, which the second run takes for a header of fewer than three fields and
  extends again, so the two outputs differ.
\<close>

theorem second_run_differs_counterexample:
  "fst (main (example_world (ascii ''N'' @ LF # ascii ''t,x'' @ [LF]))) = None
   \<and> files (final_world (example_world (ascii ''N'' @ LF # ascii ''t,x'' @ [LF]))) input_file
       = Some (Text (ascii ''N,DescriptionJa'' @ CR # LF # ascii ''t,x,'' @ [CR, LF]))
   \<and> fst (main (final_world (example_world (ascii ''N'' @ LF # ascii ''t,x'' @ [LF])))) = None
   \<and> files (final_world (final_world (example_world (ascii ''N'' @ LF # ascii ''t,x'' @ [LF]))))
        input_file
       = Some (Text (ascii ''N,DescriptionJa,DescriptionJa'' @ CR # LF # ascii ''t,x,'' @ [CR, LF]))
   \<and> ascii ''N,DescriptionJa,DescriptionJa'' @ CR # LF # ascii ''t,x,'' @ [CR, LF]
       \<noteq> ascii ''N,DescriptionJa'' @ CR # LF # ascii ''t,x,'' @ [CR, LF]"
proof -
  let ?t = "ascii ''N'' @ LF # ascii ''t,x'' @ [LF]"
  let ?t1 = "ascii ''N,DescriptionJa'' @ CR # LF # ascii ''t,x,'' @ [CR, LF]"
  let ?t2 = "ascii ''N,DescriptionJa,DescriptionJa'' @ CR # LF # ascii ''t,x,'' @ [CR, LF]"
  let ?w = "example_world ?t"
  let ?W = "final_world ?w"
  have rd: "csv_reader (file_lines ?t) None = ([[ascii ''N''], [ascii ''t'', ascii ''x'']], None)"
    by (simp add: reader_eval ascii_def)
  have doc: "process_document [[ascii ''N''], [ascii ''t'', ascii ''x'']] None
      = ([[ascii ''N'', ascii ''DescriptionJa''], [ascii ''t'', ascii ''x'', []]], None)"
    by (simp add: rows_eval ascii_def)
  have wr: "writerow [ascii ''N'', ascii ''DescriptionJa''] = ascii ''N,DescriptionJa'' @ [CR, LF]"
    "writerow [ascii ''t'', ascii ''x'', []] = ascii ''t,x,'' @ [CR, LF]"
    "writerow [ascii ''N'', ascii ''DescriptionJa'', ascii ''DescriptionJa'']
       = ascii ''N,DescriptionJa,DescriptionJa'' @ [CR, LF]"
    by (simp_all add: writer_eval ascii_def)
  have first: "fst (main ?w) = None"
    and out1: "files ?W input_file = Some (Text ?t1)"
    by (simp_all add: world_eval rd doc wr)
  have run: "main ?w = (None, snd (main ?w))"
    using first by (cases "main ?w") simp
  have perms: "may_read ?W input_file" "may_write ?W output_file" "may_replace ?W"
    using main_success_result [OF run] by (simp_all add: example_world_def)
  have rd2: "csv_reader (file_lines ?t1) None
      = ([[ascii ''N'', ascii ''DescriptionJa''], [ascii ''t'', ascii ''x'', []]], None)"
    by (simp add: reader_eval ascii_def)
  have doc2: "process_document [[ascii ''N'', ascii ''DescriptionJa''], [ascii ''t'', ascii ''x'', []]] None
      = ([[ascii ''N'', ascii ''DescriptionJa'', ascii ''DescriptionJa''], [ascii ''t'', ascii ''x'', []]], None)"
    by (simp add: rows_eval ascii_def)
  have second: "fst (main ?W) = None"
    using out1 perms by (simp add: main_success_iff rd2 doc2)
  then have run2: "main ?W = (None, snd (main ?W))"
    by (cases "main ?W") simp
  have out2: "files (final_world ?W) input_file = Some (Text ?t2)"
    using main_success_result [OF run2] out1 by (simp add: rd2 doc2 wr)
  have "?t2 \<noteq> ?t1"
    by (simp add: ascii_def)
  with first out1 second out2 show ?thesis by simp
qed

end
